theory Spec2Isabelle
  imports Main "HOL-Library.Word" "HOL-Library.Multiset"
begin

section \<open>Ruby strings (llm\_loop.rb)\<close>

text \<open>
  A Ruby string is a sequence of characters; \<open>length\<close>, indexing and the regular
  expressions of the formatter all work on characters, so a string is modelled as the list
  of its code points. \<open>ustr\<close> turns an ASCII literal into such a list.
\<close>

type_synonym uchar = nat
type_synonym ustring = "uchar list"

definition ustr :: "string \<Rightarrow> ustring" where
  "ustr s = map of_char s"

abbreviation NL :: uchar where "NL \<equiv> 10"
abbreviation SP :: uchar where "SP \<equiv> 32"
abbreviation APOS :: uchar where "APOS \<equiv> 39"
abbreviation COMMA :: uchar where "COMMA \<equiv> 44"
abbreviation DOT :: uchar where "DOT \<equiv> 46"

text \<open>The regular expression class \<open>\s\<close>: space, tab, line feed, vertical tab, form
  feed, carriage return.\<close>

definition is_space :: "uchar \<Rightarrow> bool" where
  "is_space c = (c = 32 \<or> (9 \<le> c \<and> c \<le> 13))"

text \<open>\<open>String#strip\<close> removes leading and trailing whitespace, where whitespace is
  \<open>\s\<close> or the null character.\<close>

definition is_strip_ws :: "uchar \<Rightarrow> bool" where
  "is_strip_ws c = (c = 0 \<or> is_space c)"

definition rstrip_by :: "(uchar \<Rightarrow> bool) \<Rightarrow> ustring \<Rightarrow> ustring" where
  "rstrip_by P s = rev (dropWhile P (rev s))"

definition strip :: "ustring \<Rightarrow> ustring" where
  "strip s = rstrip_by is_strip_ws (dropWhile is_strip_ws s)"

text \<open>The character class \<open>[A-Za-z]\<close>.\<close>

definition is_alpha :: "uchar \<Rightarrow> bool" where
  "is_alpha c = ((65 \<le> c \<and> c \<le> 90) \<or> (97 \<le> c \<and> c \<le> 122))"

text \<open>\<open>Array#join(sep)\<close>.\<close>

fun join :: "ustring \<Rightarrow> ustring list \<Rightarrow> ustring" where
  "join sep [] = []"
| "join sep [l] = l"
| "join sep (l # m # ls) = l @ sep @ join sep (m # ls)"

text \<open>
  \<open>String#split(pattern)\<close> without a limit cuts at every separator and then drops the
  empty strings at the end of the result. \<open>fields_on\<close> cuts at each occurrence of one
  character (the pattern \<open>"\n"\<close>); \<open>fields_ws\<close> cuts at each maximal run of whitespace
  (the pattern \<open>/\s+/\<close>, which leaves an empty first field when the text starts with
  whitespace).
\<close>

definition drop_trailing_empty :: "ustring list \<Rightarrow> ustring list" where
  "drop_trailing_empty ls = rev (dropWhile (\<lambda>l. l = []) (rev ls))"

fun fields_on :: "uchar \<Rightarrow> ustring \<Rightarrow> ustring list" where
  "fields_on sep [] = [[]]"
| "fields_on sep (c # cs) =
     (if c = sep then [] # fields_on sep cs
      else (case fields_on sep cs of
              [] \<Rightarrow> [[c]]
            | f # fs \<Rightarrow> (c # f) # fs))"

definition split_nl :: "ustring \<Rightarrow> ustring list" where
  "split_nl s = drop_trailing_empty (fields_on NL s)"

fun fields_ws :: "ustring \<Rightarrow> ustring list" where
  "fields_ws [] = [[]]"
| "fields_ws [c] = (if is_space c then [[], []] else [[c]])"
| "fields_ws (c # d # ds) =
     (if is_space c then
        (if is_space d then fields_ws (d # ds) else [] # fields_ws (d # ds))
      else (case fields_ws (d # ds) of
              [] \<Rightarrow> [[c]]
            | f # fs \<Rightarrow> (c # f) # fs))"

definition split_ws :: "ustring \<Rightarrow> ustring list" where
  "split_ws s = drop_trailing_empty (fields_ws s)"

section \<open>The formatter: wrap\_to\_width and sanitize\_and\_format\<close>

text \<open>
  One round of the \<open>words.each\<close> loop of \<open>wrap_to_width\<close>; the loop state is the
  finished lines and the line being filled.
\<close>

fun wrap_step :: "int \<Rightarrow> ustring list \<times> ustring \<Rightarrow> ustring \<Rightarrow> ustring list \<times> ustring" where
  "wrap_step cols (lines, current) word =
     (if int (length word) > cols then
        ((if current = [] then lines else lines @ [current]) @ [word], [])
      else if current = [] then (lines, word)
      else if int (length current) + 1 + int (length word) \<le> cols then
        (lines, current @ [SP] @ word)
      else (lines @ [current], word))"

text \<open>\<open>lines << current unless current.empty?\<close>, after the loop.\<close>

fun wrap_finish :: "ustring list \<times> ustring \<Rightarrow> ustring list" where
  "wrap_finish (lines, current) = (if current = [] then lines else lines @ [current])"

definition wrap_lines :: "ustring \<Rightarrow> int \<Rightarrow> ustring list" where
  "wrap_lines text cols =
     (let words = split_ws text in
      if words = [] then []
      else wrap_finish (foldl (wrap_step cols) ([], []) words))"

definition wrap_to_width :: "ustring \<Rightarrow> int \<Rightarrow> ustring" where
  "wrap_to_width text cols = join [NL] (wrap_lines text cols)"

text \<open>\<open>lines.pop while lines.any? && lines.last.strip.empty?\<close>\<close>

function pop_blank :: "ustring list \<Rightarrow> ustring list" where
  "pop_blank [] = []"
| "pop_blank (l # ls) =
     (if strip (last (l # ls)) = [] then pop_blank (butlast (l # ls)) else l # ls)"
  by pat_completeness auto
termination
  by (relation "measure length") auto

text \<open>
  \<open>TOKEN_RE = /\G[A-Za-z]+(?:'[A-Za-z]+)*/\<close> matched at the start of the remaining
  text. \<open>apos_groups\<close> is the greedy repetition \<open>(?:'[A-Za-z]+)*\<close>: it returns what the
  groups matched and the text after them.
\<close>

function apos_groups :: "ustring \<Rightarrow> ustring \<times> ustring" where
  "apos_groups [] = ([], [])"
| "apos_groups (c # r) =
     (if c = APOS \<and> takeWhile is_alpha r \<noteq> [] then
        (case apos_groups (dropWhile is_alpha r) of
           (g, rest) \<Rightarrow> (APOS # takeWhile is_alpha r @ g, rest))
      else ([], c # r))"
  by pat_completeness auto
termination
  by (relation "measure length") (auto simp: le_imp_less_Suc length_dropWhile_le)

definition token_match :: "ustring \<Rightarrow> (ustring \<times> ustring) option" where
  "token_match s =
     (if takeWhile is_alpha s = [] then None
      else (case apos_groups (dropWhile is_alpha s) of
              (g, rest) \<Rightarrow> Some (takeWhile is_alpha s @ g, rest)))"

lemma apos_groups_length: "length (snd (apos_groups s)) \<le> length s"
proof (induction s rule: apos_groups.induct)
  case 1
  show ?case by simp
next
  case (2 c r)
  have "length (dropWhile is_alpha r) \<le> length r"
    by (rule length_dropWhile_le)
  with 2 show ?case
    by (auto simp: split_beta)
qed

lemma token_match_shorter:
  assumes "token_match s = Some (tok, rest)"
  shows "length rest < length s"
proof -
  from assms have ne: "takeWhile is_alpha s \<noteq> []"
    and r: "rest = snd (apos_groups (dropWhile is_alpha s))"
    by (auto simp: token_match_def split: if_splits prod.splits)
  have "length rest \<le> length (dropWhile is_alpha s)"
    unfolding r by (rule apos_groups_length)
  moreover have "length (takeWhile is_alpha s) + length (dropWhile is_alpha s) = length s"
    by (metis length_append takeWhile_dropWhile_id)
  moreover from ne have "0 < length (takeWhile is_alpha s)" by simp
  ultimately show ?thesis by linarith
qed

text \<open>
  The \<open>while i < n\<close> loop of \<open>sanitize_and_format\<close>, on the text from position \<open>i\<close>
  on. The loop state is \<open>out_chars\<close> (an array of strings: tokens and single
  characters), \<open>word_count\<close> and \<open>last_was_space\<close>; the result is \<open>out_chars\<close> when
  the loop ends (at the end of the text, or at the \<open>break\<close> when the token budget is
  used up).
\<close>

function scan :: "int \<Rightarrow> ustring \<Rightarrow> ustring list \<times> int \<times> bool \<Rightarrow> ustring list" where
  "scan max_tokens [] (out, wc, lws) = out"
| "scan max_tokens (ch # text') (out, wc, lws) =
     (case token_match (ch # text') of
        Some (token, rest) \<Rightarrow>
          if wc \<ge> max_tokens then out
          else scan max_tokens rest
                 ((if out \<noteq> [] \<and> last out \<notin> {[SP], [COMMA], [DOT]}
                   then out @ [[SP]] else out) @ [token],
                  wc + 1, False)
      | None \<Rightarrow>
          if is_space ch then
            (if out \<noteq> [] \<and> \<not> lws
             then scan max_tokens text' (out @ [[SP]], wc, True)
             else scan max_tokens text' (out, wc, lws))
          else if ch = COMMA \<or> ch = DOT then
            (if out \<noteq> []
             then scan max_tokens text'
                    ((if last out = [SP] then butlast out else out) @ [[ch], [SP]],
                     wc, True)
             else scan max_tokens text' (out, wc, lws))
          else scan max_tokens text' (out, wc, lws))"
  by pat_completeness auto
termination
  by (relation "measure (\<lambda>(m, text, st). length text)")
     (auto dest: token_match_shorter)

declare scan.simps(2) [simp del]

datatype rb_error = ArgumentError

text \<open>The text the scanning loop reads: the lines of \<open>raw\<close> without the trailing blank
  lines and the \<open>END\<close> control line, stripped, joined by single spaces, with typographic
  apostrophes replaced, cut after the first full stop.\<close>

definition unquote :: "uchar \<Rightarrow> uchar" where
  "unquote c = (if c = 8217 \<or> c = 8216 then APOS else c)"

definition first_sentence :: "ustring \<Rightarrow> ustring" where
  "first_sentence text =
     (if DOT \<in> set text then takeWhile (\<lambda>c. c \<noteq> DOT) text @ [DOT] else text)"

definition logical_text :: "ustring \<Rightarrow> ustring" where
  "logical_text raw =
     (let lines = pop_blank (split_nl raw);
          lines = (if lines \<noteq> [] \<and> strip (last lines) = ustr ''END''
                   then butlast lines else lines);
          text = join [SP] (filter (\<lambda>ln. ln \<noteq> []) (map strip lines))
      in first_sentence (map unquote text))"

text \<open>\<open>trimmed\<close>: the joined \<open>out_chars\<close>, stripped, with its trailing run of
  whitespace and commas replaced by a full stop when it does not end with one.\<close>

definition trimmed_text :: "ustring \<Rightarrow> int \<Rightarrow> ustring" where
  "trimmed_text raw max_tokens =
     (let trimmed = strip (concat (scan max_tokens (logical_text raw) ([], 0, False)))
      in if trimmed \<noteq> [] \<and> last trimmed \<noteq> DOT
         then rstrip_by (\<lambda>c. is_space c \<or> c = COMMA) trimmed @ [DOT]
         else trimmed)"

text \<open>\<open>Array#first(n)\<close> raises ArgumentError for a negative \<open>n\<close>.\<close>

definition array_first :: "int \<Rightarrow> 'a list \<Rightarrow> rb_error + 'a list" where
  "array_first n xs = (if n < 0 then Inl ArgumentError else Inr (take (nat n) xs))"

definition sanitize_and_format :: "ustring \<Rightarrow> int \<Rightarrow> int \<Rightarrow> int \<Rightarrow> rb_error + ustring" where
  "sanitize_and_format raw max_tokens max_lines width =
     (let wrapped = wrap_to_width (trimmed_text raw max_tokens) width;
          out_lines = split_nl wrapped
      in case array_first max_lines out_lines of
           Inl e \<Rightarrow> Inl e
         | Inr out_lines \<Rightarrow> Inr (join [NL] out_lines))"

section \<open>The generation cycle of the background loop (main)\<close>

text \<open>
  \<open>payload = formatted.end_with?("\n") ? formatted : "#{formatted}\n"\<close>
\<close>

definition cycle_payload :: "ustring \<Rightarrow> ustring" where
  "cycle_payload formatted =
     (if formatted \<noteq> [] \<and> last formatted = NL then formatted else formatted @ [NL])"

text \<open>
  One round of the \<open>loop do\<close> of \<open>main\<close>, from the raw model response to the payload
  handed to \<open>send_http\<close>, \<open>send_ble\<close> or \<open>send_serial\<close>. \<open>width\<close> is
  \<open>[PANEL_COLS, 19].min\<close>. An exception of the formatter is rescued by the loop, which
  then delivers nothing in that round: the result \<open>Inl\<close>.
\<close>

definition generation_cycle :: "ustring \<Rightarrow> int \<Rightarrow> int \<Rightarrow> int \<Rightarrow> rb_error + ustring" where
  "generation_cycle raw panel_cols max_tokens max_lines =
     (let width = min panel_cols 19 in
      case sanitize_and_format raw max_tokens max_lines width of
        Inl e \<Rightarrow> Inl e
      | Inr formatted \<Rightarrow> Inr (cycle_payload formatted))"

section \<open>Predicates used in the proofs about the formatter\<close>

definition no_alpha :: "ustring \<Rightarrow> bool" where
  "no_alpha s = (\<forall>c \<in> set s. \<not> is_alpha c)"

text \<open>A word of \<open>split(/\s+/)\<close> on a text that does not start with whitespace.\<close>

definition word_ok :: "ustring \<Rightarrow> bool" where
  "word_ok w = (w \<noteq> [] \<and> (\<forall>c \<in> set w. \<not> is_space c))"

text \<open>A wrapped line: not empty, without a line feed, and either within \<open>cols\<close>
  characters or a single word that is longer.\<close>

definition line_ok :: "int \<Rightarrow> ustring \<Rightarrow> bool" where
  "line_ok cols l =
     (l \<noteq> [] \<and> NL \<notin> set l \<and>
      (int (length l) \<le> cols \<or> (int (length l) > cols \<and> (\<forall>c \<in> set l. \<not> is_space c))))"

text \<open>The invariant of the \<open>words.each\<close> loop of \<open>wrap_to_width\<close>.\<close>

definition wrap_inv :: "int \<Rightarrow> ustring list \<times> ustring \<Rightarrow> bool" where
  "wrap_inv cols st =
     ((\<forall>l \<in> set (fst st). line_ok cols l) \<and>
      (snd st = [] \<or> (NL \<notin> set (snd st) \<and> int (length (snd st)) \<le> cols)))"

text \<open>A punctuation mark as the scanning loop stores it in \<open>out_chars\<close>.\<close>

definition mark :: "ustring \<Rightarrow> bool" where
  "mark e = (e = [COMMA] \<or> e = [DOT])"

text \<open>Spacing of the elements of \<open>out_chars\<close>: no space stands before a mark, a mark
  is followed by a space or by another mark, and no two spaces are adjacent.\<close>

fun well_spaced :: "ustring list \<Rightarrow> bool" where
  "well_spaced (x # y # zs) =
     ((mark y \<longrightarrow> x \<noteq> [SP]) \<and> (mark x \<longrightarrow> y = [SP] \<or> mark y) \<and>
      (x = [SP] \<longrightarrow> y \<noteq> [SP]) \<and> well_spaced (y # zs))"
| "well_spaced [x] = True"
| "well_spaced [] = True"

text \<open>The invariant of the scanning loop on \<open>out_chars\<close> and
  \<open>last_was_space\<close>.\<close>

definition scan_inv :: "ustring list \<times> bool \<Rightarrow> bool" where
  "scan_inv s =
     (well_spaced (fst s) \<and> (fst s = [] \<or> \<not> mark (last (fst s))) \<and>
      (snd s = (fst s \<noteq> [] \<and> last (fst s) = [SP])))"

section \<open>The display device (the firmware after the Ruby script in llm\_loop.rb)\<close>

subsection \<open>Inbound channels\<close>

text \<open>
  \<open>std::string\<close> and the Arduino \<open>String\<close> are byte sequences: \<open>string\<close>. The
  globals of the firmware and the \<open>static\<close> locals of \<open>processUSB\<close> and \<open>loop\<close>
  are the fields of one record. \<open>n_millis\<close> and \<open>n_random\<close> count the calls made so far
  to \<open>millis()\<close> and to the random number generator, and \<open>display\<close> is the trace of
  the calls to the panel and to the delay functions.
\<close>

abbreviation LF :: char where "LF \<equiv> CHR 0x0A"
abbreviation NUL :: char where "NUL \<equiv> CHR 0x00"

datatype ScreenState =
  STATE_WAIT_60S | STATE_DISSOLVING | STATE_POST_DISSOLVE_PAUSE
| STATE_THINING | STATE_TYPEWRITER | STATE_DONE

datatype effect =
  FillRect int int int int
| FillScreen
| SetBrightness nat
| MakePalette nat nat nat
| DrawWrappedGradient string int
| RenderThining bool
| DelayMicroseconds nat
| Delay nat

record device =
  bleAccum :: string
  usbAccum :: string
  gLiveText :: string
  gHasLiveText :: bool
  kNewLivePending :: bool
  currentPhilo :: nat
  state :: ScreenState
  tMark :: "32 word"
  twIdx :: nat
  twLast :: "32 word"
  n_millis :: nat
  n_random :: nat
  display :: "effect list"

text \<open>
  \<open>RxCallbacks::onWrite\<close>, with \<open>v\<close> the value written to the characteristic.
  \<open>String(bleAccum.c_str())\<close> copies the accumulator up to its first null byte.
\<close>

definition onWrite :: "string \<Rightarrow> device \<Rightarrow> device" where
  "onWrite v d =
     (if v = [] then d
      else let acc = bleAccum d @ v in
        if LF \<in> set acc then
          d\<lparr>gLiveText := takeWhile (\<lambda>c. c \<noteq> NUL) acc, gHasLiveText := True,
            kNewLivePending := True, bleAccum := []\<rparr>
        else d\<lparr>bleAccum := acc\<rparr>)"

text \<open>
  The \<open>while (Serial.available())\<close> loop of \<open>processUSB\<close>, on the bytes the serial
  port delivers during the call: each byte is appended, and an accumulator longer than 4096
  bytes keeps its last 2048 (\<open>usbAccum.remove(0, usbAccum.length() - 2048)\<close>).
\<close>

fun usb_read :: "string \<Rightarrow> string \<Rightarrow> string" where
  "usb_read acc [] = acc"
| "usb_read acc (c # cs) =
     usb_read (if length (acc @ [c]) > 4096
               then drop (length (acc @ [c]) - 2048) (acc @ [c]) else acc @ [c]) cs"

text \<open>
  \<open>String::indexOf(ch)\<close> of the Arduino core (WString.cpp, not part of the
  repository): \<open>-1\<close> for an empty string, and else the result of \<open>strchr\<close> on
  the buffer, which stops at the first null byte: the index of the first \<open>ch\<close> before
  it, or \<open>-1\<close>. The other operations of \<open>String\<close> used here (\<open>+=\<close> with a
  character, \<open>remove\<close>, the assignment of a \<open>String\<close>) work on the length of the
  string and keep null bytes.
\<close>

definition indexOf :: "char \<Rightarrow> string \<Rightarrow> int" where
  "indexOf ch s =
     (let c_str = takeWhile (\<lambda>c. c \<noteq> NUL) s
      in if s = [] then - 1
         else if ch = NUL then int (length c_str)
         else if ch \<in> set c_str then int (length (takeWhile (\<lambda>c. c \<noteq> ch) c_str))
         else - 1)"

text \<open>\<open>processUSB\<close>, on the bytes the serial port delivers during the call.\<close>

definition processUSB :: "string \<Rightarrow> device \<Rightarrow> device" where
  "processUSB avail d =
     (let acc = usb_read (usbAccum d) avail in
      if indexOf LF acc \<noteq> - 1 then
        d\<lparr>gLiveText := acc, gHasLiveText := True, kNewLivePending := True, usbAccum := []\<rparr>
      else d\<lparr>usbAccum := acc\<rparr>)"

text \<open>
  \<open>handlePost\<close>: the request has a body (\<open>Some body\<close>) or no \<open>plain\<close> argument
  (\<open>None\<close>); the result holds the status code and the text of the response.
\<close>

definition handlePost :: "string option \<Rightarrow> device \<Rightarrow> device \<times> nat \<times> string" where
  "handlePost body d =
     (case body of
        None \<Rightarrow> (d, 400, ''no body'')
      | Some b \<Rightarrow>
          (d\<lparr>gLiveText := b, gHasLiveText := True, kNewLivePending := True\<rparr>, 200, ''ok''))"

subsection \<open>Time and random numbers\<close>

text \<open>
  The clock and the random number generator are outside the program: \<open>millis_at w k\<close> is
  what the \<open>k\<close>-th call of \<open>millis()\<close> returns and \<open>random_at w k\<close> the \<open>k\<close>-th
  raw value of the generator. \<open>random(howbig)\<close> of the Arduino core returns 0 for
  \<open>howbig = 0\<close> and else a value from 0 to \<open>howbig - 1\<close>, the raw value reduced modulo
  \<open>howbig\<close>; \<open>random(lo, hi)\<close> returns \<open>lo\<close> when \<open>lo \<ge> hi\<close> and else
  \<open>random(hi - lo) + lo\<close>.
\<close>

record world =
  millis_at :: "nat \<Rightarrow> 32 word"
  random_at :: "nat \<Rightarrow> nat"

definition millis :: "world \<Rightarrow> device \<Rightarrow> 32 word \<times> device" where
  "millis w d = (millis_at w (n_millis d), d\<lparr>n_millis := Suc (n_millis d)\<rparr>)"

definition random_below :: "nat \<Rightarrow> nat \<Rightarrow> nat" where
  "random_below howbig raw = (if howbig = 0 then 0 else raw mod howbig)"

definition random_range :: "nat \<Rightarrow> nat \<Rightarrow> nat \<Rightarrow> nat" where
  "random_range lo hi raw = (if lo \<ge> hi then lo else random_below (hi - lo) raw + lo)"

subsection \<open>The dissolve animation\<close>

datatype dev_error = DivisionByZero | OutOfBounds

text \<open>
  The Fisher-Yates loop \<open>for (i = N - 1; i > 0; --i)\<close>, from \<open>i\<close> down to 1; \<open>k\<close>
  counts the random numbers drawn.
\<close>

fun shuffle :: "(nat \<Rightarrow> nat) \<Rightarrow> nat \<Rightarrow> nat \<Rightarrow> nat list \<Rightarrow> nat list \<times> nat" where
  "shuffle rnd k 0 idx = (idx, k)"
| "shuffle rnd k (Suc i) idx =
     (let j = random_below (Suc i + 1) (rnd k);
          t = idx ! Suc i
      in shuffle rnd (Suc k) i (idx[Suc i := idx ! j, j := t]))"

text \<open>The conversion of an \<open>int\<close> to \<open>int16_t\<close>.\<close>

definition int16 :: "int \<Rightarrow> int" where
  "int16 x = (x + 32768) mod 65536 - 32768"

text \<open>\<open>nx\<close>, \<open>ny\<close> and \<open>N\<close> of \<open>dissolveClearBlocks\<close>: the blocks per row, the
  rows of blocks and the number of blocks.\<close>

definition blocks_along :: "16 word \<Rightarrow> 8 word \<Rightarrow> nat" where
  "blocks_along w block = ((unat w + unat block - 1) div unat block) mod 65536"

definition block_count :: "16 word \<Rightarrow> 16 word \<Rightarrow> 8 word \<Rightarrow> nat" where
  "block_count w h block = (blocks_along w block * blocks_along h block) mod 2 ^ 32"

text \<open>The body of the clearing loop for the block index \<open>p\<close>: the \<open>fillRect\<close> call.\<close>

definition clear_block :: "16 word \<Rightarrow> 16 word \<Rightarrow> 8 word \<Rightarrow> nat \<Rightarrow> effect" where
  "clear_block w h block p =
     (let nx = blocks_along w block;
          bx = int16 (int ((p mod nx) * unat block));
          b_y = int16 (int ((p div nx) * unat block));
          bw = (if bx + uint block > uint w then (uint w - bx) mod 65536 else uint block);
          bh = (if b_y + uint block > uint h then (uint h - b_y) mod 65536 else uint block)
      in FillRect bx b_y bw bh)"

text \<open>\<open>us_per_blk\<close>: \<open>(duration_ms * 1000UL) / (N ? N : 1)\<close> in 32 bits, and 1 when
  that is 0.\<close>

definition us_per_blk :: "32 word \<Rightarrow> nat \<Rightarrow> nat" where
  "us_per_blk duration_ms N =
     (let q = unat (duration_ms * 1000) div (if N \<noteq> 0 then N else 1)
      in if q = 0 then 1 else q)"

text \<open>
  \<open>dissolveClearBlocks(w, h, duration_ms, block)\<close>. \<open>malloc_ok\<close> tells whether
  \<open>malloc\<close> returns a buffer, \<open>rnd\<close> is the random number generator and \<open>k\<close> the
  number of values drawn from it so far. The result holds the shuffled index array, the
  calls made to the panel and to \<open>delayMicroseconds\<close>, and the new count of random
  numbers. The division by a zero \<open>block\<close>, and the accesses outside \<open>idx\<close> when
  \<open>N = 0\<close> (the shuffle starts at \<open>i = N - 1\<close>, which wraps around) or when
  \<open>N * sizeof(uint16_t)\<close> does not fit the 32 bits of \<open>size_t\<close>, are errors. The
  entries of \<open>idx\<close> are \<open>uint16_t\<close>.
\<close>

definition dissolveClearBlocks ::
  "bool \<Rightarrow> (nat \<Rightarrow> nat) \<Rightarrow> nat \<Rightarrow> 16 word \<Rightarrow> 16 word \<Rightarrow> 32 word \<Rightarrow> 8 word
     \<Rightarrow> dev_error + nat list \<times> effect list \<times> nat" where
  "dissolveClearBlocks malloc_ok rnd k w h duration_ms block =
     (if block = 0 then Inl DivisionByZero
      else let N = block_count w h block in
        if \<not> malloc_ok then Inr ([], [], k)
        else if N = 0 \<or> 2 * N \<ge> 2 ^ 32 then Inl OutOfBounds
        else (case shuffle rnd k (N - 1) (map (\<lambda>i. i mod 65536) [0..<N]) of
                (idx, k') \<Rightarrow>
                  Inr (idx,
                       concat (map (\<lambda>p. [clear_block w h block p,
                                           DelayMicroseconds (us_per_blk duration_ms N)]) idx),
                       k')))"

subsection \<open>The sequencer: loop()\<close>

text \<open>
  The configuration: the number of canned sets \<open>kNumPhilos\<close> (6 in the source) and the
  combined canned sentences. The panel is two chained panels of 64 by 64 pixels, so
  \<open>dma_display->width()\<close> is 128 and \<open>dma_display->height()\<close> is 64.
\<close>

record config =
  kNumPhilos :: nat
  gCannedText :: "nat \<Rightarrow> string"

definition panel_width :: "16 word" where "panel_width = 128"
definition panel_height :: "16 word" where "panel_height = 64"
definition kTargetBrightness :: nat where "kTargetBrightness = 120"

text \<open>What one call of \<open>loop()\<close> receives from outside: a POST request handled by
  \<open>server.handleClient()\<close> if there is one, the bytes the serial port delivers, and
  whether \<open>malloc\<close> succeeds.\<close>

record input =
  post_request :: "string option option"
  serial_bytes :: string
  malloc_succeeds :: bool

definition emit :: "effect list \<Rightarrow> device \<Rightarrow> device" where
  "emit es d = d\<lparr>display := display d @ es\<rparr>"

text \<open>\<open>server.handleClient(); processUSB(); processBluetooth();\<close> The last does
  nothing.\<close>

definition ingest :: "input \<Rightarrow> device \<Rightarrow> device" where
  "ingest inp d =
     processUSB (serial_bytes inp)
       (case post_request inp of None \<Rightarrow> d | Some body \<Rightarrow> fst (handlePost body d))"

text \<open>\<open>if (kNewLivePending) { kNewLivePending = false; tMark = millis();
  state = STATE_DISSOLVING; }\<close>\<close>

definition check_pending :: "world \<Rightarrow> device \<Rightarrow> device" where
  "check_pending w d =
     (if kNewLivePending d then
        (case millis w d of
           (t, d') \<Rightarrow> d'\<lparr>kNewLivePending := False, tMark := t, state := STATE_DISSOLVING\<rparr>)
      else d)"

text \<open>\<open>randomizePalette\<close> draws the channel that is set to 255 and a value from 40 to
  220 for each of the two others.\<close>

definition randomizePalette :: "world \<Rightarrow> device \<Rightarrow> device" where
  "randomizePalette w d =
     (let k = n_random d;
          which = random_below 3 (random_at w k) mod 256;
          r = (if which = 0 then 255 else random_range 40 221 (random_at w (k + 1)) mod 256);
          k1 = (if which = 0 then k + 1 else k + 2);
          g = (if which = 1 then 255 else random_range 40 221 (random_at w k1) mod 256);
          k2 = (if which = 1 then k1 else k1 + 1);
          b = (if which = 2 then 255 else random_range 40 221 (random_at w k2) mod 256);
          k3 = (if which = 2 then k2 else k2 + 1)
      in emit [MakePalette r g b] (d\<lparr>n_random := k3\<rparr>))"

text \<open>
  \<open>do { currentPhilo = random(kNumPhilos); } while (currentPhilo == prev);\<close> The loop
  runs for as long as the generator returns the previous entry: a run that never ends is
  \<open>None\<close>. The result is the entry drawn and the new count of random numbers.
\<close>

partial_function (option) redraw :: "(nat \<Rightarrow> nat) \<Rightarrow> nat \<Rightarrow> nat \<Rightarrow> nat \<Rightarrow> (nat \<times> nat) option" where
  "redraw rnd n prev k =
     (if random_below n (rnd k) = prev then redraw rnd n prev (Suc k)
      else Some (random_below n (rnd k), Suc k))"

text \<open>The text the typewriter reveals:
  \<open>gHasLiveText ? gLiveText : gCannedText[currentPhilo]\<close>.\<close>

definition active_text :: "config \<Rightarrow> device \<Rightarrow> string" where
  "active_text cfg d = (if gHasLiveText d then gLiveText d else gCannedText cfg (currentPhilo d))"

text \<open>The \<open>switch (state)\<close> of \<open>loop()\<close>, case by case.\<close>

definition state_wait :: "world \<Rightarrow> device \<Rightarrow> device" where
  "state_wait w d =
     (case millis w d of
        (t, d1) \<Rightarrow> if t - tMark d1 \<ge> 60000 then d1\<lparr>state := STATE_DISSOLVING\<rparr> else d1)"

definition state_dissolving :: "world \<Rightarrow> input \<Rightarrow> device \<Rightarrow> dev_error + device" where
  "state_dissolving w inp d =
     (case dissolveClearBlocks (malloc_succeeds inp) (random_at w) (n_random d)
             panel_width panel_height 1500 4 of
        Inl e \<Rightarrow> Inl e
      | Inr (idx, effects, k) \<Rightarrow>
          (case millis w (emit effects (d\<lparr>n_random := k\<rparr>)) of
             (t, d1) \<Rightarrow> Inr (d1\<lparr>tMark := t, state := STATE_POST_DISSOLVE_PAUSE\<rparr>)))"

definition state_pause :: "world \<Rightarrow> device \<Rightarrow> device" where
  "state_pause w d =
     (case millis w d of
        (t, d1) \<Rightarrow>
          if t - tMark d1 \<ge> 1000 then
            (case millis w d1 of (t', d2) \<Rightarrow> d2\<lparr>tMark := t', state := STATE_THINING\<rparr>)
          else d1)"

definition state_thining :: "world \<Rightarrow> device \<Rightarrow> device" where
  "state_thining w d =
     (case millis w d of
        (t, d1) \<Rightarrow>
          (case millis w (emit [RenderThining ((t div 500) mod 2 = 0)] d1) of
             (t', d2) \<Rightarrow>
               emit [Delay 30]
                 (if t' - tMark d2 \<ge> 10000 then
                    (randomizePalette w
                       (emit [SetBrightness kTargetBrightness, FillScreen] d2
                          \<lparr>twIdx := 0, twLast := 0\<rparr>))
                      \<lparr>state := STATE_TYPEWRITER\<rparr>
                  else d2)))"

definition state_typewriter :: "config \<Rightarrow> world \<Rightarrow> device \<Rightarrow> device" where
  "state_typewriter cfg w d =
     (case millis w d of
        (t, d1) \<Rightarrow>
          emit [Delay 10]
            (if t - twLast d1 \<ge> 30 then
               (case millis w d1 of
                  (t', d2) \<Rightarrow>
                    if twIdx d2 < length (active_text cfg d2) then
                      (emit [DrawWrappedGradient (active_text cfg d2) (int (twIdx d2) + 1)]
                         (d2\<lparr>twLast := t'\<rparr>))\<lparr>twIdx := Suc (twIdx d2)\<rparr>
                    else d2\<lparr>twLast := t', state := STATE_DONE\<rparr>)
             else d1))"

definition state_done :: "config \<Rightarrow> world \<Rightarrow> device \<Rightarrow> device option" where
  "state_done cfg w d =
     (let d1 = emit [Delay 2000] d;
          prev = currentPhilo d1
      in case (if kNumPhilos cfg > 1
               then redraw (random_at w) (kNumPhilos cfg) prev (n_random d1)
               else Some (prev, n_random d1)) of
           None \<Rightarrow> None
         | Some (c, k) \<Rightarrow>
             (case millis w (d1\<lparr>currentPhilo := c, n_random := k, gHasLiveText := False\<rparr>) of
                (t, d2) \<Rightarrow> Some (d2\<lparr>tMark := t, state := STATE_WAIT_60S\<rparr>)))"

text \<open>
  One call of \<open>loop()\<close>. \<open>None\<close>: the call does not return; \<open>Some (Inl e)\<close>: it
  runs into the error \<open>e\<close>; \<open>Some (Inr d')\<close>: it returns and leaves the state \<open>d'\<close>.
\<close>

definition run_state :: "config \<Rightarrow> world \<Rightarrow> input \<Rightarrow> device \<Rightarrow> (dev_error + device) option" where
  "run_state cfg w inp d =
     (case state d of
        STATE_WAIT_60S \<Rightarrow> Some (Inr (state_wait w d))
      | STATE_DISSOLVING \<Rightarrow> Some (state_dissolving w inp d)
      | STATE_POST_DISSOLVE_PAUSE \<Rightarrow> Some (Inr (state_pause w d))
      | STATE_THINING \<Rightarrow> Some (Inr (state_thining w d))
      | STATE_TYPEWRITER \<Rightarrow> Some (Inr (state_typewriter cfg w d))
      | STATE_DONE \<Rightarrow> map_option Inr (state_done cfg w d))"

definition loop :: "config \<Rightarrow> world \<Rightarrow> input \<Rightarrow> device \<Rightarrow> (dev_error + device) option" where
  "loop cfg w inp d = run_state cfg w inp (check_pending w (ingest inp d))"

subsection \<open>The canned sentences and concrete states\<close>

text \<open>
  \<open>kPhilosophies\<close> and \<open>buildCannedCombined\<close>: each canned sentence is the six lines
  of a set joined by single spaces; \<open>gCannedText\<close> has room for 16 of them.
\<close>

definition kPhilosophies :: "string list list" where
  "kPhilosophies =
     [[''Life is   '', ''mostly fog'', ''and echoes'', ''of old tea'', ''cooling so'', ''again hmm.''],
      [''Truth: meh'', ''we nod now'', ''meaning is'', ''soft so so'', ''for a bit.'', ''then naps.''],
      [''Time hums.'', ''like a fan'', ''in a small'', ''we call it'', ''and stays.'', ''same as me''],
      [''Hope shows'', ''then hides'', ''we shrug a'', ''little bit'', ''and sip we'', ''again sure''],
      [''Meaning is'', ''just a map'', ''of places '', ''we drew on'', ''in the fog'', ''last night''],
      [''Mind drift'', ''over pools'', ''of bright '', ''dot we map'', ''then we nap'', ''by morning'']]"

fun join_spaces :: "string list \<Rightarrow> string" where
  "join_spaces [] = []"
| "join_spaces [l] = l"
| "join_spaces (l # m # ls) = l @ '' '' @ join_spaces (m # ls)"

definition source_config :: config where
  "source_config =
     \<lparr>kNumPhilos = length kPhilosophies,
      gCannedText = (\<lambda>i. if i < length kPhilosophies \<and> i < 16
                          then join_spaces (kPhilosophies ! i) else [])\<rparr>"

text \<open>
  The state after \<open>setup()\<close> with the first canned set chosen, and states, a clock, a
  generator and an input on which the theorems below are run: a device in the middle of the
  typewriter phase with a new message pending, one in the thinking phase and one in the
  done phase.
\<close>

definition device0 :: device where
  "device0 = \<lparr>bleAccum = [], usbAccum = [], gLiveText = [], gHasLiveText = False,
     kNewLivePending = False, currentPhilo = 0, state = STATE_WAIT_60S, tMark = 0,
     twIdx = 0, twLast = 0, n_millis = 0, n_random = 0, display = []\<rparr>"

definition world0 :: world where
  "world0 = \<lparr>millis_at = (\<lambda>k. 20000 + of_nat k), random_at = (\<lambda>k. k)\<rparr>"

definition input0 :: input where
  "input0 = \<lparr>post_request = None, serial_bytes = [], malloc_succeeds = True\<rparr>"

definition typing_device :: device where
  "typing_device = device0\<lparr>state := STATE_TYPEWRITER, twIdx := 5, kNewLivePending := True,
     gLiveText := ''Hello there.'' @ [LF], gHasLiveText := True\<rparr>"

definition thinking_device :: device where
  "thinking_device = device0\<lparr>state := STATE_THINING, twIdx := 5\<rparr>"


subsection \<open>Predicates used in the proofs about the device\<close>


section \<open>The radio bridge (PYTHON\_BLE\_BRIDGE in llm\_loop.rb)\<close>

text \<open>
  The bridge talks to the radio through the Bleak library. What the library and the radio
  answer is outside the program, so it is a script: \<open>scans\<close>, \<open>connects\<close>,
  \<open>connected\<close>, \<open>services\<close> and \<open>writes\<close> hold the outcomes of the successive
  scans, \<open>connect()\<close> calls, reads of \<open>is_connected\<close>, \<open>get_services()\<close> calls and
  \<open>write_gatt_char\<close> calls (\<open>False\<close>: the call raises), and a call made after its
  script has run out raises. \<open>calls\<close> is the trace of the calls made, and
  \<open>clients_made\<close> counts the \<open>BleakClient\<close> objects constructed; a client is known by
  its number.

  A scan stands for the whole search of \<open>discover_target\<close>
  (\<open>find_device_by_filter\<close>, then \<open>discover\<close> and the loops that match the name and
  the service UUID): it yields the address of the device found, finds nothing, or raises
  (the exception of \<open>BleakScanner.discover\<close>, which is not caught).
\<close>

type_synonym addr = string
type_synonym client_id = nat
type_synonym char_handle = nat




datatype call =
  Scan
| Disconnect client_id
| Connect client_id addr
| GetServices client_id
| WriteGattChar client_id char_handle ustring bool





























subsection \<open>Predicates used in the proofs about the bridge\<close>



section \<open>Properties of the formatter\<close>

subsection \<open>Evaluation rules\<close>

text \<open>The three ways one round of the scanning loop can go, as rewrite rules.\<close>

lemma scan_token:
  "token_match (ch # t) = Some (tok, rest) \<Longrightarrow> wc < m \<Longrightarrow>
   scan m (ch # t) (out, wc, lws) =
     scan m rest ((if out \<noteq> [] \<and> last out \<notin> {[SP], [COMMA], [DOT]}
                   then out @ [[SP]] else out) @ [tok], wc + 1, False)"
  by (simp add: scan.simps(2))

lemma scan_budget:
  "token_match (ch # t) = Some (tok, rest) \<Longrightarrow> m \<le> wc \<Longrightarrow>
   scan m (ch # t) (out, wc, lws) = out"
  by (simp add: scan.simps(2))

lemma scan_other:
  "token_match (ch # t) = None \<Longrightarrow>
   scan m (ch # t) (out, wc, lws) =
     (if is_space ch then
        (if out \<noteq> [] \<and> \<not> lws then scan m t (out @ [[SP]], wc, True)
         else scan m t (out, wc, lws))
      else if ch = COMMA \<or> ch = DOT then
        (if out \<noteq> []
         then scan m t ((if last out = [SP] then butlast out else out) @ [[ch], [SP]], wc, True)
         else scan m t (out, wc, lws))
      else scan m t (out, wc, lws))"
  by (simp add: scan.simps(2))

lemmas str_eval = ustr_def split_nl_def split_ws_def drop_trailing_empty_def strip_def
  rstrip_by_def is_strip_ws_def is_space_def is_alpha_def first_sentence_def unquote_def Let_def

subsection \<open>The documented example\<close>

lemma hello_logical_text:
  "logical_text (ustr ''Hello there. Ignore this part'') = ustr ''Hello there.''"
  by (simp add: logical_text_def str_eval)

lemma hello_scan:
  "scan 28 (ustr ''Hello there.'') ([], 0, False) =
     [ustr ''Hello'', [SP], ustr ''there'', [DOT], [SP]]"
  by (simp add: scan_token scan_other token_match_def str_eval)

lemma hello_trimmed:
  "trimmed_text (ustr ''Hello there. Ignore this part'') 28 = ustr ''Hello there.''"
  unfolding trimmed_text_def hello_logical_text hello_scan by (simp add: str_eval)

lemma hello_wrap: "wrap_lines (ustr ''Hello there.'') 19 = [ustr ''Hello there.'']"
  by (simp add: wrap_lines_def str_eval)

subsection \<open>Splitting, wrapping and joining\<close>

lemma fields_ws_nonempty: "fields_ws s \<noteq> []"
  by (induction s rule: fields_ws.induct) (auto split: list.splits)

lemma fields_ws_no_space: "f \<in> set (fields_ws s) \<Longrightarrow> x \<in> set f \<Longrightarrow> \<not> is_space x"
proof (induction s arbitrary: f rule: fields_ws.induct)
  case 1
  then show ?case by simp
next
  case (2 c)
  then show ?case by (cases "is_space c") auto
next
  case (3 c d ds)
  obtain g gs where F: "fields_ws (d # ds) = g # gs"
    using fields_ws_nonempty [of "d # ds"] by (cases "fields_ws (d # ds)") auto
  show ?case
  proof (cases "is_space c")
    case True
    show ?thesis
    proof (cases "is_space d")
      case d: True
      from "3.prems" True d have "f \<in> set (fields_ws (d # ds))" by simp
      from "3.IH"(1) [OF True d this "3.prems"(2)] show ?thesis .
    next
      case d: False
      from "3.prems" True d have "f = [] \<or> f \<in> set (fields_ws (d # ds))" by simp
      then show ?thesis
      proof
        assume "f = []" with "3.prems"(2) show ?thesis by simp
      next
        assume "f \<in> set (fields_ws (d # ds))"
        from "3.IH"(2) [OF True d this "3.prems"(2)] show ?thesis .
      qed
    qed
  next
    case False
    from "3.prems"(1) False F have "f = c # g \<or> f \<in> set gs" by simp
    then show ?thesis
    proof
      assume f: "f = c # g"
      with "3.prems"(2) have "x = c \<or> x \<in> set g" by simp
      then show ?thesis
      proof
        assume "x = c" with False show ?thesis by simp
      next
        assume "x \<in> set g"
        moreover have "g \<in> set (fields_ws (d # ds))" using F by simp
        ultimately show ?thesis using "3.IH"(3) [OF False] by blast
      qed
    next
      assume "f \<in> set gs"
      then have "f \<in> set (fields_ws (d # ds))" using F by simp
      from "3.IH"(3) [OF False this "3.prems"(2)] show ?thesis .
    qed
  qed
qed

lemma fields_ws_inner:
  "(s \<noteq> [] \<and> \<not> is_space (hd s) \<longrightarrow> (\<forall>f \<in> set (butlast (fields_ws s)). f \<noteq> []))
   \<and> (\<forall>f \<in> set (butlast (tl (fields_ws s))). f \<noteq> [])"
proof (induction s rule: fields_ws.induct)
  case 1
  show ?case by simp
next
  case (2 c)
  show ?case by simp
next
  case (3 c d ds)
  obtain f fs where F: "fields_ws (d # ds) = f # fs"
    using fields_ws_nonempty [of "d # ds"] by (cases "fields_ws (d # ds)") auto
  with 3 show ?case by (cases "is_space c"; cases "is_space d") auto
qed

lemma drop_trailing_empty_nonempty:
  assumes "\<forall>f \<in> set (butlast F). f \<noteq> []"
  shows "\<forall>f \<in> set (drop_trailing_empty F). f \<noteq> []"
proof (cases F rule: rev_cases)
  case Nil
  then show ?thesis by (simp add: drop_trailing_empty_def)
next
  case (snoc B l)
  show ?thesis
  proof (cases "l = []")
    case True
    have "set (dropWhile (\<lambda>l. l = []) (rev B)) \<subseteq> set B"
      using set_dropWhileD [of _ "\<lambda>l. l = []" "rev B"] by auto
    moreover from snoc True have "drop_trailing_empty F = rev (dropWhile (\<lambda>l. l = []) (rev B))"
      by (simp add: drop_trailing_empty_def)
    moreover from snoc assms have "\<forall>f \<in> set B. f \<noteq> []" by simp
    ultimately show ?thesis by auto
  next
    case False
    with snoc have "drop_trailing_empty F = F"
      by (simp add: drop_trailing_empty_def)
    with snoc assms False show ?thesis by auto
  qed
qed

lemma drop_trailing_empty_subset: "set (drop_trailing_empty F) \<subseteq> set F"
  using set_dropWhileD [of _ "\<lambda>l. l = []" "rev F"] by (auto simp: drop_trailing_empty_def)

lemma split_ws_words:
  assumes "s = [] \<or> \<not> is_space (hd s)"
  shows "\<forall>w \<in> set (split_ws s). w \<noteq> [] \<and> (\<forall>c \<in> set w. \<not> is_space c)"
proof -
  have ne: "\<forall>w \<in> set (split_ws s). w \<noteq> []"
  proof (cases "s = []")
    case True
    then show ?thesis by (simp add: split_ws_def drop_trailing_empty_def)
  next
    case False
    with assms fields_ws_inner [of s]
    have "\<forall>f \<in> set (butlast (fields_ws s)). f \<noteq> []" by simp
    then show ?thesis
      unfolding split_ws_def by (rule drop_trailing_empty_nonempty)
  qed
  have "set (split_ws s) \<subseteq> set (fields_ws s)"
    unfolding split_ws_def by (rule drop_trailing_empty_subset)
  with ne show ?thesis using fields_ws_no_space by blast
qed

lemma fields_ws_last:
  "s \<noteq> [] \<Longrightarrow> \<not> is_space (last s) \<Longrightarrow>
   last (fields_ws s) \<noteq> [] \<and> last (last (fields_ws s)) = last s"
proof (induction s rule: fields_ws.induct)
  case 1
  then show ?case by simp
next
  case (2 c)
  then show ?case by simp
next
  case (3 c d ds)
  obtain f fs where F: "fields_ws (d # ds) = f # fs"
    using fields_ws_nonempty [of "d # ds"] by (cases "fields_ws (d # ds)") auto
  with 3 show ?case by (cases "is_space c"; cases "is_space d") (auto split: if_splits)
qed

lemma split_ws_last:
  assumes "s \<noteq> []" "\<not> is_space (last s)"
  shows "split_ws s \<noteq> [] \<and> last (split_ws s) \<noteq> [] \<and> last (last (split_ws s)) = last s"
proof -
  from fields_ws_last [OF assms] have l: "last (fields_ws s) \<noteq> []"
    and e: "last (last (fields_ws s)) = last s" by auto
  have "drop_trailing_empty (fields_ws s) = fields_ws s"
    using l fields_ws_nonempty [of s]
    by (cases "fields_ws s" rule: rev_cases) (auto simp: drop_trailing_empty_def)
  with l e fields_ws_nonempty [of s] show ?thesis by (simp add: split_ws_def)
qed

lemma word_ok_no_NL: "word_ok w \<Longrightarrow> NL \<notin> set w"
  by (auto simp: word_ok_def is_space_def)

lemma wrap_step_inv:
  assumes "word_ok w" "wrap_inv cols st"
  shows "wrap_inv cols (wrap_step cols st w)"
proof -
  obtain lines cur where st: "st = (lines, cur)" by (cases st)
  from assms(1) have nl: "NL \<notin> set w" by (rule word_ok_no_NL)
  from assms(1) have ne: "w \<noteq> []" and sp: "\<forall>c \<in> set w. \<not> is_space c"
    by (auto simp: word_ok_def)
  from assms(2) st have L: "\<forall>l \<in> set lines. line_ok cols l"
    and C: "cur = [] \<or> (NL \<notin> set cur \<and> int (length cur) \<le> cols)"
    by (auto simp: wrap_inv_def)
  have curok: "cur \<noteq> [] \<Longrightarrow> line_ok cols cur"
    using C by (auto simp: line_ok_def)
  show ?thesis
  proof (cases "int (length w) > cols")
    case True
    then have "line_ok cols w" using ne nl sp by (auto simp: line_ok_def)
    with True L curok st show ?thesis by (auto simp: wrap_inv_def)
  next
    case False
    show ?thesis
    proof (cases "cur = []")
      case True
      with False L nl st show ?thesis by (auto simp: wrap_inv_def)
    next
      case cne: False
      show ?thesis
      proof (cases "int (length cur) + 1 + int (length w) \<le> cols")
        case True
        with False cne L C nl st show ?thesis by (auto simp: wrap_inv_def)
      next
        case F3: False
        with False cne L curok nl st show ?thesis by (auto simp: wrap_inv_def)
      qed
    qed
  qed
qed

lemma wrap_fold_inv:
  "\<forall>w \<in> set ws. word_ok w \<Longrightarrow> wrap_inv cols st \<Longrightarrow>
   wrap_inv cols (foldl (wrap_step cols) st ws)"
proof (induction ws arbitrary: st)
  case Nil
  then show ?case by simp
next
  case (Cons w ws)
  from Cons.prems have "wrap_inv cols (wrap_step cols st w)"
    by (intro wrap_step_inv) auto
  with Cons show ?case by simp
qed

lemma wrap_finish_ok:
  assumes "wrap_inv cols st"
  shows "\<forall>l \<in> set (wrap_finish st). line_ok cols l"
proof -
  obtain lines cur where st: "st = (lines, cur)" by (cases st)
  with assms show ?thesis by (auto simp: wrap_inv_def line_ok_def)
qed

lemma wrap_lines_ok:
  assumes "text = [] \<or> \<not> is_space (hd text)"
  shows "\<forall>l \<in> set (wrap_lines text cols). line_ok cols l"
proof -
  have w: "\<forall>w \<in> set (split_ws text). word_ok w"
    using split_ws_words [OF assms] by (simp add: word_ok_def)
  have "wrap_inv cols ([], [])" by (simp add: wrap_inv_def)
  with w have "wrap_inv cols (foldl (wrap_step cols) ([], []) (split_ws text))"
    by (rule wrap_fold_inv)
  then have "\<forall>l \<in> set (wrap_finish (foldl (wrap_step cols) ([], []) (split_ws text))). line_ok cols l"
    by (rule wrap_finish_ok)
  then show ?thesis by (simp add: wrap_lines_def Let_def)
qed

lemma wrap_last:
  assumes "ws \<noteq> []" "last ws \<noteq> []"
  shows "wrap_finish (foldl (wrap_step cols) st ws) \<noteq> [] \<and>
         last (wrap_finish (foldl (wrap_step cols) st ws)) \<noteq> [] \<and>
         last (last (wrap_finish (foldl (wrap_step cols) st ws))) = last (last ws)"
proof -
  from assms(1) obtain B w where ws: "ws = B @ [w]" by (cases ws rule: rev_cases) auto
  with assms(2) have ne: "w \<noteq> []" by simp
  obtain lines cur where st': "foldl (wrap_step cols) st B = (lines, cur)"
    by (cases "foldl (wrap_step cols) st B")
  have "foldl (wrap_step cols) st ws = wrap_step cols (lines, cur) w"
    using ws st' by simp
  with ne ws show ?thesis by auto
qed

lemma wrap_lines_last:
  assumes "text \<noteq> []" "\<not> is_space (last text)"
  shows "wrap_lines text cols \<noteq> [] \<and> last (wrap_lines text cols) \<noteq> [] \<and>
         last (last (wrap_lines text cols)) = last text"
proof -
  from split_ws_last [OF assms] have a: "split_ws text \<noteq> []"
    and b: "last (split_ws text) \<noteq> []" and c: "last (last (split_ws text)) = last text"
    by auto
  from wrap_last [OF a b, of cols "([], [])"] a c show ?thesis
    by (simp add: wrap_lines_def Let_def)
qed

lemma join_last:
  "ls \<noteq> [] \<Longrightarrow> last ls \<noteq> [] \<Longrightarrow> join sep ls \<noteq> [] \<and> last (join sep ls) = last (last ls)"
  by (induction sep ls rule: join.induct) auto

lemma fields_on_plain: "sep \<notin> set l \<Longrightarrow> fields_on sep l = [l]"
  by (induction l) auto

lemma fields_on_append:
  "sep \<notin> set l \<Longrightarrow> fields_on sep (l @ sep # r) = l # fields_on sep r"
  by (induction l) auto

lemma fields_on_join:
  "ls \<noteq> [] \<Longrightarrow> \<forall>l \<in> set ls. sep \<notin> set l \<Longrightarrow> fields_on sep (join [sep] ls) = ls"
  by (induction "[sep]" ls rule: join.induct) (auto simp: fields_on_plain fields_on_append)

lemma split_nl_join:
  assumes "\<forall>l \<in> set ls. l \<noteq> [] \<and> NL \<notin> set l"
  shows "split_nl (join [NL] ls) = ls"
proof (cases "ls = []")
  case True
  then show ?thesis by (simp add: split_nl_def drop_trailing_empty_def)
next
  case False
  with assms have "fields_on NL (join [NL] ls) = ls" by (intro fields_on_join) auto
  moreover from False assms have "last ls \<noteq> []" by (metis last_in_set)
  then have "drop_trailing_empty ls = ls" using False
    by (cases ls rule: rev_cases) (auto simp: drop_trailing_empty_def)
  ultimately show ?thesis by (simp add: split_nl_def)
qed

lemma dropWhile_last: "dropWhile P xs \<noteq> [] \<Longrightarrow> last (dropWhile P xs) = last xs"
  by (metis last_appendR takeWhile_dropWhile_id)

lemma rstrip_by_hd: "rstrip_by P s \<noteq> [] \<Longrightarrow> hd (rstrip_by P s) = hd s"
proof -
  assume a: "rstrip_by P s \<noteq> []"
  then have d: "dropWhile P (rev s) \<noteq> []" by (simp add: rstrip_by_def)
  then have s: "s \<noteq> []" by auto
  have "hd (rstrip_by P s) = last (dropWhile P (rev s))"
    using d by (simp add: rstrip_by_def hd_rev)
  also have "\<dots> = last (rev s)" using d by (rule dropWhile_last)
  also have "\<dots> = hd s" using s by (simp add: last_rev)
  finally show ?thesis .
qed

lemma rstrip_by_set: "set (rstrip_by P s) \<subseteq> set s"
  using set_dropWhileD [of _ P "rev s"] by (auto simp: rstrip_by_def)

lemma strip_hd:
  assumes "strip s \<noteq> []"
  shows "\<not> is_strip_ws (hd (strip s))"
proof -
  let ?d = "dropWhile is_strip_ws s"
  from assms have "hd (strip s) = hd ?d"
    unfolding strip_def by (rule rstrip_by_hd)
  moreover from assms have "?d \<noteq> []"
    by (cases "?d = []") (simp_all add: strip_def rstrip_by_def)
  then have "\<not> is_strip_ws (hd ?d)" by (rule hd_dropWhile)
  ultimately show ?thesis by simp
qed

lemma strip_set: "set (strip s) \<subseteq> set s"
proof -
  have "set (strip s) \<subseteq> set (dropWhile is_strip_ws s)"
    unfolding strip_def by (rule rstrip_by_set)
  also have "\<dots> \<subseteq> set s" using set_dropWhileD by fastforce
  finally show ?thesis .
qed

lemma trimmed_text_shape:
  "(trimmed_text raw mt = [] \<or> \<not> is_space (hd (trimmed_text raw mt))) \<and>
   (trimmed_text raw mt = [] \<or> last (trimmed_text raw mt) = DOT)"
proof -
  define t where "t = strip (concat (scan mt (logical_text raw) ([], 0, False)))"
  have hd_t: "t \<noteq> [] \<Longrightarrow> \<not> is_space (hd t)"
    using strip_hd unfolding t_def by (auto simp: is_strip_ws_def)
  show ?thesis
  proof (cases "t \<noteq> [] \<and> last t \<noteq> DOT")
    case True
    let ?r = "rstrip_by (\<lambda>c. is_space c \<or> c = COMMA) t"
    have T: "trimmed_text raw mt = ?r @ [DOT]"
      using True by (simp add: trimmed_text_def t_def [symmetric] Let_def)
    have "\<not> is_space (hd (?r @ [DOT]))"
    proof (cases "?r = []")
      case True
      then show ?thesis by (simp add: is_space_def)
    next
      case False
      then have "hd ?r = hd t" by (rule rstrip_by_hd)
      moreover from False have "t \<noteq> []" by (auto simp: rstrip_by_def)
      ultimately show ?thesis using False hd_t by simp
    qed
    with T show ?thesis by simp
  next
    case False
    then have T: "trimmed_text raw mt = t"
      by (auto simp: trimmed_text_def t_def [symmetric] Let_def)
    with False hd_t show ?thesis by auto
  qed
qed

lemma sanitize_result:
  assumes "0 \<le> ml"
  shows "sanitize_and_format raw mt ml w =
           Inr (join [NL] (take (nat ml) (wrap_lines (trimmed_text raw mt) w)))"
proof -
  have ok: "\<forall>l \<in> set (wrap_lines (trimmed_text raw mt) w). line_ok w l"
    using trimmed_text_shape [of raw mt] by (intro wrap_lines_ok) simp
  then have "split_nl (join [NL] (wrap_lines (trimmed_text raw mt) w))
               = wrap_lines (trimmed_text raw mt) w"
    by (intro split_nl_join) (simp add: line_ok_def)
  with assms show ?thesis
    by (simp add: sanitize_and_format_def wrap_to_width_def array_first_def Let_def)
qed

lemma sanitize_error: "ml < 0 \<Longrightarrow> sanitize_and_format raw mt ml w = Inl ArgumentError"
  by (simp add: sanitize_and_format_def array_first_def Let_def)

lemma sanitize_lines:
  assumes "sanitize_and_format raw mt ml w = Inr out"
  shows "0 \<le> ml \<and> split_nl out = take (nat ml) (wrap_lines (trimmed_text raw mt) w)
         \<and> (\<forall>l \<in> set (split_nl out). line_ok w l)"
proof -
  have ml: "0 \<le> ml"
    using assms sanitize_error [of ml raw mt w] by (cases "ml < 0") auto
  from sanitize_result [OF ml, of raw mt w] assms
  have out: "out = join [NL] (take (nat ml) (wrap_lines (trimmed_text raw mt) w))" by simp
  have ok: "\<forall>l \<in> set (wrap_lines (trimmed_text raw mt) w). line_ok w l"
    using trimmed_text_shape [of raw mt] by (intro wrap_lines_ok) simp
  then have ok': "\<forall>l \<in> set (take (nat ml) (wrap_lines (trimmed_text raw mt) w)). line_ok w l"
    by (meson in_set_takeD)
  then have "split_nl out = take (nat ml) (wrap_lines (trimmed_text raw mt) w)"
    unfolding out by (intro split_nl_join) (simp add: line_ok_def)
  with ml ok' show ?thesis by simp
qed

lemma fields_on_set: "f \<in> set (fields_on sep s) \<Longrightarrow> set f \<subseteq> set s"
proof (induction s arbitrary: f)
  case Nil
  then show ?case by simp
next
  case (Cons c cs)
  show ?case
  proof (cases "c = sep")
    case True
    with Cons show ?thesis by auto
  next
    case False
    show ?thesis
    proof (cases "fields_on sep cs")
      case Nil
      with False Cons.prems show ?thesis by simp
    next
      case (Cons g gs)
      with False Cons.prems have "f = c # g \<or> f \<in> set gs" by simp
      then show ?thesis
      proof
        assume "f = c # g"
        moreover have "set g \<subseteq> set cs" using Cons.IH [of g] Cons by simp
        ultimately show ?thesis by auto
      next
        assume "f \<in> set gs"
        then have "set f \<subseteq> set cs" using Cons.IH [of f] Cons by simp
        then show ?thesis by auto
      qed
    qed
  qed
qed

lemma pop_blank_set: "set (pop_blank ls) \<subseteq> set ls"
proof (induction ls rule: pop_blank.induct)
  case 1
  show ?case by simp
next
  case (2 l ls)
  show ?case
  proof (cases "strip (last (l # ls)) = []")
    case True
    with 2 have "set (pop_blank (l # ls)) \<subseteq> set (butlast (l # ls))" by simp
    also have "\<dots> \<subseteq> set (l # ls)" by (meson in_set_butlastD subsetI)
    finally show ?thesis .
  next
    case False
    then show ?thesis by simp
  qed
qed

lemma join_set: "set (join sep ls) \<subseteq> set sep \<union> (\<Union>l \<in> set ls. set l)"
  by (induction sep ls rule: join.induct) auto

lemma no_alpha_subset: "set t \<subseteq> set s \<Longrightarrow> no_alpha s \<Longrightarrow> no_alpha t"
  by (auto simp: no_alpha_def)

lemma no_alpha_Nil: "no_alpha []"
  by (simp add: no_alpha_def)

lemma no_alpha_append: "no_alpha (a @ b) = (no_alpha a \<and> no_alpha b)"
  by (auto simp: no_alpha_def)

lemma join_no_alpha:
  "no_alpha sep \<Longrightarrow> \<forall>l \<in> set ls. no_alpha l \<Longrightarrow> no_alpha (join sep ls)"
proof (induction sep ls rule: join.induct)
  case (1 sep)
  show ?case by (simp add: no_alpha_Nil)
next
  case (2 sep l)
  then show ?case by simp
next
  case (3 sep l m ls)
  from "3.prems" have "no_alpha l" and "\<forall>x \<in> set (m # ls). no_alpha x" by simp_all
  with 3 show ?case by (simp add: no_alpha_append)
qed

lemma first_sentence_no_alpha:
  assumes "no_alpha s"
  shows "no_alpha (first_sentence s)"
proof -
  have "set (takeWhile (\<lambda>c. c \<noteq> DOT) s) \<subseteq> set s"
    using set_takeWhileD [of _ "\<lambda>c. c \<noteq> DOT" s] by blast
  from this assms have "no_alpha (takeWhile (\<lambda>c. c \<noteq> DOT) s)"
    by (rule no_alpha_subset)
  moreover have "\<not> is_alpha DOT" by (simp add: is_alpha_def)
  ultimately have "no_alpha (takeWhile (\<lambda>c. c \<noteq> DOT) s @ [DOT])"
    by (simp add: no_alpha_def)
  with assms show ?thesis by (simp add: first_sentence_def)
qed

lemma logical_text_no_alpha:
  assumes "no_alpha raw"
  shows "no_alpha (logical_text raw)"
proof -
  define l1 where "l1 = pop_blank (split_nl raw)"
  define l2 where "l2 = (if l1 \<noteq> [] \<and> strip (last l1) = ustr ''END'' then butlast l1 else l1)"
  define t where "t = join [SP] (filter (\<lambda>ln. ln \<noteq> []) (map strip l2))"
  have lt: "logical_text raw = first_sentence (map unquote t)"
    by (simp add: logical_text_def l1_def l2_def t_def Let_def)
  have "set l1 \<subseteq> set (fields_on NL raw)"
    using pop_blank_set [of "split_nl raw"] drop_trailing_empty_subset [of "fields_on NL raw"]
    by (auto simp: l1_def split_nl_def)
  moreover have "set l2 \<subseteq> set l1"
    by (auto simp: l2_def dest: in_set_butlastD)
  ultimately have l2: "\<forall>l \<in> set l2. no_alpha l"
    using fields_on_set [of _ NL raw] assms by (meson no_alpha_subset subsetD)
  have "\<forall>l \<in> set (map strip l2). no_alpha l"
    using l2 by (auto intro: no_alpha_subset [OF strip_set])
  then have "\<forall>l \<in> set (filter (\<lambda>ln. ln \<noteq> []) (map strip l2)). no_alpha l" by auto
  then have t: "no_alpha t"
    unfolding t_def by (intro join_no_alpha) (simp_all add: no_alpha_def is_alpha_def)
  have "no_alpha (map unquote t)"
    using t by (auto simp: no_alpha_def unquote_def is_alpha_def)
  then show ?thesis
    unfolding lt by (rule first_sentence_no_alpha)
qed

lemma token_match_not_alpha: "\<not> is_alpha ch \<Longrightarrow> token_match (ch # t) = None"
  by (simp add: token_match_def)

lemma scan_no_alpha: "no_alpha t \<Longrightarrow> scan m t ([], wc, lws) = []"
proof (induction t arbitrary: wc lws)
  case Nil
  show ?case by simp
next
  case (Cons ch t)
  then have "\<not> is_alpha ch" and "no_alpha t" by (auto simp: no_alpha_def)
  with Cons.IH show ?case by (simp add: scan_other token_match_not_alpha)
qed

lemma trimmed_text_no_alpha: "no_alpha raw \<Longrightarrow> trimmed_text raw mt = []"
  by (simp add: trimmed_text_def scan_no_alpha logical_text_no_alpha strip_def rstrip_by_def)

lemma wrap_lines_Nil: "wrap_lines [] cols = []"
  by (simp add: wrap_lines_def split_ws_def drop_trailing_empty_def)

subsection \<open>Spacing around punctuation\<close>

lemma well_spaced_snoc:
  "well_spaced (xs @ [y]) =
     (well_spaced xs \<and>
      (xs = [] \<or> ((mark y \<longrightarrow> last xs \<noteq> [SP]) \<and> (mark (last xs) \<longrightarrow> y = [SP] \<or> mark y) \<and>
                   (last xs = [SP] \<longrightarrow> y \<noteq> [SP]))))"
proof (induction xs rule: well_spaced.induct)
  case (1 x z zs)
  then show ?case by auto
next
  case (2 x)
  show ?case by simp
next
  case 3
  show ?case by simp
qed

lemma well_spaced_butlast: "well_spaced xs \<Longrightarrow> well_spaced (butlast xs)"
proof (cases xs rule: rev_cases)
  case Nil
  then show ?thesis by simp
next
  case (snoc ys y)
  assume "well_spaced xs"
  with snoc show ?thesis by (simp add: well_spaced_snoc)
qed

lemma well_spaced_no_double:
  assumes "well_spaced xs" "xs \<noteq> []" "last xs = [SP]" "butlast xs \<noteq> []"
  shows "last (butlast xs) \<noteq> [SP]"
proof -
  from assms(2) obtain ys y where xs: "xs = ys @ [y]" by (cases xs rule: rev_cases) auto
  with assms show ?thesis by (auto simp: well_spaced_snoc)
qed

lemma token_match_token:
  assumes "token_match s = Some (tok, rest)"
  shows "tok \<noteq> [SP] \<and> \<not> mark tok"
proof -
  from assms have ne: "takeWhile is_alpha s \<noteq> []"
    and t: "tok = takeWhile is_alpha s @ fst (apos_groups (dropWhile is_alpha s))"
    by (auto simp: token_match_def split: if_splits prod.splits)
  from ne have "hd (takeWhile is_alpha s) \<in> set (takeWhile is_alpha s)" by simp
  then have "is_alpha (hd (takeWhile is_alpha s))" by (meson set_takeWhileD)
  moreover have "hd tok = hd (takeWhile is_alpha s)" using ne t by simp
  moreover have "tok \<noteq> []" using ne t by simp
  ultimately show ?thesis
    by (cases tok) (auto simp: mark_def is_alpha_def)
qed

lemma scan_inv_token:
  assumes "scan_inv (out, lws)" "tok \<noteq> [SP]" "\<not> mark tok"
  shows "scan_inv ((if out \<noteq> [] \<and> last out \<notin> {[SP], [COMMA], [DOT]}
                     then out @ [[SP]] else out) @ [tok], False)"
  using assms by (auto simp: scan_inv_def well_spaced_snoc mark_def)

lemma scan_inv_space:
  assumes "scan_inv (out, lws)" "out \<noteq> []" "\<not> lws"
  shows "scan_inv (out @ [[SP]], True)"
  using assms by (auto simp: scan_inv_def well_spaced_snoc mark_def)

lemma scan_inv_mark:
  assumes "scan_inv (out, lws)" "out \<noteq> []" "ch = COMMA \<or> ch = DOT"
  shows "scan_inv ((if last out = [SP] then butlast out else out) @ [[ch], [SP]], True)"
proof -
  let ?o = "if last out = [SP] then butlast out else out"
  from assms(1) have ws: "well_spaced out" by (simp add: scan_inv_def)
  have ws1: "well_spaced ?o" using ws by (simp add: well_spaced_butlast)
  have l1: "?o = [] \<or> last ?o \<noteq> [SP]"
    using well_spaced_no_double [OF ws assms(2)] by auto
  have m: "mark [ch]" using assms(3) by (auto simp: mark_def)
  have "well_spaced (?o @ [[ch]])"
    using ws1 l1 m by (simp only: well_spaced_snoc) blast
  then have "well_spaced ((?o @ [[ch]]) @ [[SP]])"
    using m assms(3) by (simp only: well_spaced_snoc) (auto simp: mark_def)
  then have "well_spaced (?o @ [[ch], [SP]])" by simp
  then show ?thesis by (simp add: scan_inv_def mark_def)
qed

lemma scan_keeps_inv:
  "scan_inv (out, lws) \<Longrightarrow>
   well_spaced (scan m s (out, wc, lws)) \<and>
   (scan m s (out, wc, lws) = [] \<or> \<not> mark (last (scan m s (out, wc, lws))))"
proof (induction m s "(out, wc, lws)" arbitrary: out wc lws rule: scan.induct)
  case (1 m out wc lws)
  then show ?case by (simp add: scan_inv_def)
next
  case (2 m ch t out wc lws)
  show ?case
  proof (cases "token_match (ch # t)")
    case (Some p)
    obtain tok rest where p: "p = (tok, rest)" by (cases p)
    have tm: "token_match (ch # t) = Some (tok, rest)" using Some p by simp
    show ?thesis
    proof (cases "m \<le> wc")
      case True
      then show ?thesis using tm "2.prems" by (simp add: scan_budget scan_inv_def)
    next
      case False
      then have lt: "wc < m" by simp
      have "scan_inv ((if out \<noteq> [] \<and> last out \<notin> {[SP], [COMMA], [DOT]}
                        then out @ [[SP]] else out) @ [tok], False)"
        using "2.prems" token_match_token [OF tm] by (intro scan_inv_token [of out lws]) simp_all
      from "2.hyps"(6) [OF tm refl False this]
      show ?thesis unfolding scan_token [OF tm lt] .
    qed
  next
    case None
    show ?thesis
    proof (cases "is_space ch")
      case True
      show ?thesis
      proof (cases "out \<noteq> [] \<and> \<not> lws")
        case c: True
        have eq: "scan m (ch # t) (out, wc, lws) = scan m t (out @ [[SP]], wc, True)"
          using True c by (auto simp add: scan_other [OF None])
        have "scan_inv (out @ [[SP]], True)"
          using "2.prems" c by (intro scan_inv_space [of out lws]) simp_all
        from "2.hyps"(1) [OF None True c this] show ?thesis unfolding eq .
      next
        case c: False
        have eq: "scan m (ch # t) (out, wc, lws) = scan m t (out, wc, lws)"
          using True c by (auto simp add: scan_other [OF None])
        from "2.hyps"(2) [OF None True c "2.prems"] show ?thesis unfolding eq .
      qed
    next
      case False
      show ?thesis
      proof (cases "ch = COMMA \<or> ch = DOT")
        case p: True
        show ?thesis
        proof (cases "out \<noteq> []")
          case c: True
          have eq: "scan m (ch # t) (out, wc, lws) =
                      scan m t ((if last out = [SP] then butlast out else out) @ [[ch], [SP]],
                                wc, True)"
            using False p c by (auto simp add: scan_other [OF None])
          have "scan_inv ((if last out = [SP] then butlast out else out) @ [[ch], [SP]], True)"
            using "2.prems" c p by (intro scan_inv_mark [of out lws]) simp_all
          from "2.hyps"(3) [OF None False p c this] show ?thesis unfolding eq .
        next
          case c: False
          have eq: "scan m (ch # t) (out, wc, lws) = scan m t (out, wc, lws)"
            using False p c by (auto simp add: scan_other [OF None])
          from "2.hyps"(4) [OF None False p c "2.prems"] show ?thesis unfolding eq .
        qed
      next
        case p: False
        have eq: "scan m (ch # t) (out, wc, lws) = scan m t (out, wc, lws)"
          using False p by (auto simp add: scan_other [OF None])
        from "2.hyps"(5) [OF None False p "2.prems"] show ?thesis unfolding eq .
      qed
    qed
  qed
qed

lemma scan_well_spaced:
  "well_spaced (scan m s ([], 0, False)) \<and>
   (scan m s ([], 0, False) = [] \<or> \<not> mark (last (scan m s ([], 0, False))))"
  by (rule scan_keeps_inv) (simp add: scan_inv_def)

subsection \<open>Letters survive the scanning loop\<close>

lemma token_match_alpha:
  assumes "is_alpha ch"
  shows "\<exists>tok rest. token_match (ch # t) = Some (tok, rest) \<and> \<not> no_alpha tok"
proof -
  obtain g rest where g: "apos_groups (dropWhile is_alpha (ch # t)) = (g, rest)"
    by (cases "apos_groups (dropWhile is_alpha (ch # t))")
  have tw: "takeWhile is_alpha (ch # t) = ch # takeWhile is_alpha t" using assms by simp
  have "token_match (ch # t) = Some (takeWhile is_alpha (ch # t) @ g, rest)"
    using g tw by (simp add: token_match_def)
  moreover have "\<not> no_alpha (takeWhile is_alpha (ch # t) @ g)"
    unfolding tw using assms by (simp add: no_alpha_def)
  ultimately show ?thesis by blast
qed

lemma scan_keeps_alpha:
  "\<exists>e \<in> set out. \<not> no_alpha e \<Longrightarrow> \<exists>e \<in> set (scan m s (out, wc, lws)). \<not> no_alpha e"
proof (induction m s "(out, wc, lws)" arbitrary: out wc lws rule: scan.induct)
  case (1 m out wc lws)
  then show ?case by simp
next
  case (2 m ch t out wc lws)
  have sp: "no_alpha [SP]" by (simp add: no_alpha_def is_alpha_def)
  show ?case
  proof (cases "token_match (ch # t)")
    case (Some p)
    obtain tok rest where p: "p = (tok, rest)" by (cases p)
    have tm: "token_match (ch # t) = Some (tok, rest)" using Some p by simp
    show ?thesis
    proof (cases "m \<le> wc")
      case True
      then show ?thesis using tm "2.prems" by (simp add: scan_budget)
    next
      case False
      then have lt: "wc < m" by simp
      have "\<exists>e \<in> set ((if out \<noteq> [] \<and> last out \<notin> {[SP], [COMMA], [DOT]}
                        then out @ [[SP]] else out) @ [tok]). \<not> no_alpha e"
        using "2.prems" by auto
      from "2.hyps"(6) [OF tm refl False this]
      show ?thesis unfolding scan_token [OF tm lt] .
    qed
  next
    case None
    show ?thesis
    proof (cases "is_space ch")
      case True
      show ?thesis
      proof (cases "out \<noteq> [] \<and> \<not> lws")
        case c: True
        have eq: "scan m (ch # t) (out, wc, lws) = scan m t (out @ [[SP]], wc, True)"
          using True c by (auto simp add: scan_other [OF None])
        have "\<exists>e \<in> set (out @ [[SP]]). \<not> no_alpha e" using "2.prems" by auto
        from "2.hyps"(1) [OF None True c this] show ?thesis unfolding eq .
      next
        case c: False
        have eq: "scan m (ch # t) (out, wc, lws) = scan m t (out, wc, lws)"
          using True c by (auto simp add: scan_other [OF None])
        from "2.hyps"(2) [OF None True c "2.prems"] show ?thesis unfolding eq .
      qed
    next
      case False
      show ?thesis
      proof (cases "ch = COMMA \<or> ch = DOT")
        case p: True
        show ?thesis
        proof (cases "out \<noteq> []")
          case c: True
          have eq: "scan m (ch # t) (out, wc, lws) =
                      scan m t ((if last out = [SP] then butlast out else out) @ [[ch], [SP]],
                                wc, True)"
            using False p c by (auto simp add: scan_other [OF None])
          from "2.prems" obtain e where e: "e \<in> set out" "\<not> no_alpha e" by blast
          have "e \<in> set (if last out = [SP] then butlast out else out)"
          proof (cases "last out = [SP]")
            case True
            with e sp have "e \<noteq> last out" by auto
            with e(1) c have "e \<in> set (butlast out)"
              by (metis append_butlast_last_id in_set_butlast_appendI insert_iff list.set(2)
                  set_append Un_iff empty_iff empty_set)
            with True show ?thesis by simp
          next
            case False
            with e show ?thesis by simp
          qed
          with e(2) have "\<exists>e \<in> set ((if last out = [SP] then butlast out else out)
                             @ [[ch], [SP]]). \<not> no_alpha e" by auto
          from "2.hyps"(3) [OF None False p c this] show ?thesis unfolding eq .
        next
          case c: False
          with "2.prems" show ?thesis by simp
        qed
      next
        case p: False
        have eq: "scan m (ch # t) (out, wc, lws) = scan m t (out, wc, lws)"
          using False p by (auto simp add: scan_other [OF None])
        from "2.hyps"(5) [OF None False p "2.prems"] show ?thesis unfolding eq .
      qed
    qed
  qed
qed

lemma scan_first_alpha:
  "\<not> no_alpha t \<Longrightarrow> 0 < m \<Longrightarrow> \<exists>e \<in> set (scan m t ([], 0, lws)). \<not> no_alpha e"
proof (induction t)
  case Nil
  then show ?case by (simp add: no_alpha_def)
next
  case (Cons ch t)
  show ?case
  proof (cases "is_alpha ch")
    case True
    from token_match_alpha [OF True, of t] obtain tok rest where
      tm: "token_match (ch # t) = Some (tok, rest)" and a: "\<not> no_alpha tok" by blast
    have "scan m (ch # t) ([], 0, lws) = scan m rest ([tok], 0 + 1, False)"
      using scan_token [OF tm Cons.prems(2), of "[]" lws] by simp
    moreover have "\<exists>e \<in> set (scan m rest ([tok], 0 + 1, False)). \<not> no_alpha e"
      using a by (intro scan_keeps_alpha) simp
    ultimately show ?thesis by simp
  next
    case False
    with Cons.prems(1) have "\<not> no_alpha t" by (auto simp: no_alpha_def)
    from Cons.IH [OF this Cons.prems(2)]
    have "\<exists>e \<in> set (scan m t ([], 0, lws)). \<not> no_alpha e" .
    moreover have "scan m (ch # t) ([], 0, lws) = scan m t ([], 0, lws)"
      using False by (simp add: scan_other token_match_not_alpha)
    ultimately show ?thesis by simp
  qed
qed

lemma dropWhile_keeps: "x \<in> set xs \<Longrightarrow> \<not> P x \<Longrightarrow> x \<in> set (dropWhile P xs)"
  by (induction xs) auto

lemma strip_keeps_alpha: "\<not> no_alpha s \<Longrightarrow> \<not> no_alpha (strip s)"
proof -
  assume "\<not> no_alpha s"
  then obtain c where c: "c \<in> set s" "is_alpha c" by (auto simp: no_alpha_def)
  then have n: "\<not> is_strip_ws c" by (auto simp: is_strip_ws_def is_space_def is_alpha_def)
  from c(1) n have "c \<in> set (dropWhile is_strip_ws s)" by (rule dropWhile_keeps)
  then have "c \<in> set (rev (dropWhile is_strip_ws s))" by simp
  from this n have "c \<in> set (dropWhile is_strip_ws (rev (dropWhile is_strip_ws s)))"
    by (rule dropWhile_keeps)
  then have "c \<in> set (strip s)" by (simp add: strip_def rstrip_by_def)
  with c(2) show ?thesis by (auto simp: no_alpha_def)
qed

lemma trimmed_text_nonempty:
  assumes "\<not> no_alpha (logical_text raw)" "0 < mt"
  shows "trimmed_text raw mt \<noteq> []"
proof -
  from scan_first_alpha [OF assms, of False]
  obtain e where "e \<in> set (scan mt (logical_text raw) ([], 0, False))" "\<not> no_alpha e" by blast
  then have "\<not> no_alpha (concat (scan mt (logical_text raw) ([], 0, False)))"
    by (auto simp: no_alpha_def)
  then have "\<not> no_alpha (strip (concat (scan mt (logical_text raw) ([], 0, False))))"
    by (rule strip_keeps_alpha)
  then have "strip (concat (scan mt (logical_text raw) ([], 0, False))) \<noteq> []"
    by (auto simp: no_alpha_def)
  then show ?thesis by (auto simp: trimmed_text_def Let_def)
qed

lemma scan_no_budget: "m \<le> 0 \<Longrightarrow> scan m t ([], 0, lws) = []"
proof (induction t)
  case Nil
  show ?case by simp
next
  case (Cons ch t)
  show ?case
  proof (cases "token_match (ch # t)")
    case None
    with Cons show ?thesis by (simp add: scan_other)
  next
    case (Some p)
    obtain tok rest where "p = (tok, rest)" by (cases p)
    with Some have "token_match (ch # t) = Some (tok, rest)" by simp
    from scan_budget [OF this Cons.prems] show ?thesis .
  qed
qed

lemma trimmed_text_no_budget: "mt \<le> 0 \<Longrightarrow> trimmed_text raw mt = []"
  by (simp add: trimmed_text_def scan_no_budget strip_def rstrip_by_def)

lemma trimmed_text_no_letter: "no_alpha (logical_text raw) \<Longrightarrow> trimmed_text raw mt = []"
  by (simp add: trimmed_text_def scan_no_alpha strip_def rstrip_by_def)

subsection \<open>Concrete runs of the formatter\<close>

lemma hello_format:
  "sanitize_and_format (ustr ''Hello there. Ignore this part'') 28 6 19 = Inr (ustr ''Hello there.'')"
  unfolding sanitize_and_format_def hello_trimmed wrap_to_width_def hello_wrap
  by (simp add: array_first_def str_eval)

lemma one_two_format: "sanitize_and_format (ustr ''one two.'') 28 1 3 = Inr (ustr ''one'')"
  by (simp add: sanitize_and_format_def trimmed_text_def logical_text_def wrap_to_width_def
      wrap_lines_def array_first_def str_eval scan_token scan_other token_match_def)

lemma digits_format: "sanitize_and_format (ustr ''12 34'') 28 6 19 = Inr []"
  by (simp add: sanitize_and_format_def trimmed_text_def logical_text_def wrap_to_width_def
      wrap_lines_def array_first_def str_eval scan_token scan_other token_match_def)

lemma comma_format: "sanitize_and_format (ustr ''a , b'') 28 6 19 = Inr (ustr ''a, b.'')"
  by (simp add: sanitize_and_format_def trimmed_text_def logical_text_def wrap_to_width_def
      wrap_lines_def array_first_def str_eval scan_token scan_other token_match_def)

lemma dot_a_format: "sanitize_and_format (ustr ''. a'') 28 6 19 = Inr []"
  by (simp add: sanitize_and_format_def trimmed_text_def logical_text_def wrap_to_width_def
      wrap_lines_def array_first_def str_eval scan_token scan_other token_match_def)

lemma no_budget_format: "sanitize_and_format (ustr ''a'') 0 6 19 = Inr []"
  by (simp add: sanitize_and_format_def trimmed_text_def logical_text_def wrap_to_width_def
      wrap_lines_def array_first_def str_eval scan_budget scan_other token_match_def)

lemma end_format: "sanitize_and_format (ustr ''END'') 28 6 19 = Inr []"
  by (simp add: sanitize_and_format_def trimmed_text_def logical_text_def wrap_to_width_def
      wrap_lines_def array_first_def str_eval scan_token scan_other token_match_def)

lemma negative_lines_format: "sanitize_and_format (ustr ''a'') 28 (- 1) 19 = Inl ArgumentError"
  by (rule sanitize_error) simp

subsection \<open>The claims about the formatter\<close>

text \<open>
  C3, as amended. Whenever \<open>sanitize_and_format\<close> returns (it raises ArgumentError for a
  negative \<open>max_lines\<close>), its output has at most \<open>max_lines\<close> lines, none of them
  empty, each at most \<open>width\<close> characters long or a single word without whitespace.
  The output is empty when the text that is scanned (the input without its trailing blank
  lines and a final \<open>END\<close> line, up to its first full stop) has no letter, in particular
  when the input has none, and when \<open>max_tokens\<close> is not positive. When that text has a
  letter, \<open>max_tokens\<close> is positive and the wrapped text has no more than
  \<open>max_lines\<close> lines, so that the cut to \<open>max_lines\<close> drops nothing, the output is
  not empty and ends with a full stop.
\<close>

theorem sanitize_and_format_shape:
  assumes "sanitize_and_format raw max_tokens max_lines width = Inr out"
  shows "0 \<le> max_lines \<and> length (split_nl out) \<le> nat max_lines \<and>
         (\<forall>l \<in> set (split_nl out).
            l \<noteq> [] \<and> (int (length l) \<le> width \<or> (\<forall>c \<in> set l. \<not> is_space c))) \<and>
         (length (wrap_lines (trimmed_text raw max_tokens) width) \<le> nat max_lines
            \<longrightarrow> out = [] \<or> last out = DOT) \<and>
         ((\<forall>c \<in> set raw. \<not> is_alpha c) \<longrightarrow> out = []) \<and>
         ((\<forall>c \<in> set (logical_text raw). \<not> is_alpha c) \<or> max_tokens \<le> 0 \<longrightarrow> out = []) \<and>
         ((\<exists>c \<in> set (logical_text raw). is_alpha c) \<and> 0 < max_tokens \<and>
          length (wrap_lines (trimmed_text raw max_tokens) width) \<le> nat max_lines
            \<longrightarrow> out \<noteq> [] \<and> last out = DOT)"
proof -
  let ?T = "trimmed_text raw max_tokens"
  let ?wl = "wrap_lines ?T width"
  from sanitize_lines [OF assms] have ml: "0 \<le> max_lines"
    and sp: "split_nl out = take (nat max_lines) ?wl"
    and ok: "\<forall>l \<in> set (split_nl out). line_ok width l" by auto
  from sanitize_result [OF ml, of raw max_tokens width] assms
  have out: "out = join [NL] (take (nat max_lines) ?wl)" by simp
  have a: "length (split_nl out) \<le> nat max_lines" by (simp add: sp)
  have b: "\<forall>l \<in> set (split_nl out).
            l \<noteq> [] \<and> (int (length l) \<le> width \<or> (\<forall>c \<in> set l. \<not> is_space c))"
    using ok by (auto simp: line_ok_def)
  have full: "out \<noteq> [] \<and> last out = DOT"
    if fit: "length ?wl \<le> nat max_lines" and ne: "?T \<noteq> []"
  proof -
    from ne trimmed_text_shape [of raw max_tokens] have l: "last ?T = DOT" by simp
    then have "\<not> is_space (last ?T)" by (simp add: is_space_def)
    from wrap_lines_last [OF ne this, of width]
    have w: "?wl \<noteq> []" "last ?wl \<noteq> []" "last (last ?wl) = last ?T" by auto
    moreover from fit have o: "out = join [NL] ?wl" by (simp add: out)
    ultimately have "last out = DOT" using join_last [of ?wl "[NL]"] l by simp
    moreover have "out \<noteq> []"
    proof
      assume "out = []"
      then have "split_nl out = []" by (simp add: split_nl_def drop_trailing_empty_def)
      with sp fit w(1) show False by simp
    qed
    ultimately show ?thesis by simp
  qed
  have c: "out = [] \<or> last out = DOT" if fit: "length ?wl \<le> nat max_lines"
  proof (cases "?T = []")
    case True
    then show ?thesis by (simp add: out wrap_lines_Nil)
  next
    case False
    with full [OF fit] show ?thesis by simp
  qed
  have d: "out = []" if "\<forall>c \<in> set raw. \<not> is_alpha c"
  proof -
    from that have "no_alpha raw" by (simp add: no_alpha_def)
    then have "?T = []" by (rule trimmed_text_no_alpha)
    then show ?thesis by (simp add: out wrap_lines_Nil)
  qed
  have e: "out = []" if "(\<forall>c \<in> set (logical_text raw). \<not> is_alpha c) \<or> max_tokens \<le> 0"
  proof -
    from that have "?T = []"
      using trimmed_text_no_letter [of raw max_tokens] trimmed_text_no_budget [of max_tokens raw]
      by (auto simp: no_alpha_def)
    then show ?thesis by (simp add: out wrap_lines_Nil)
  qed
  have f: "out \<noteq> [] \<and> last out = DOT"
    if "(\<exists>c \<in> set (logical_text raw). is_alpha c) \<and> 0 < max_tokens \<and>
        length ?wl \<le> nat max_lines"
  proof -
    from that have "\<not> no_alpha (logical_text raw)" "0 < max_tokens"
      by (auto simp: no_alpha_def)
    then have "?T \<noteq> []" by (rule trimmed_text_nonempty)
    with that full show ?thesis by simp
  qed
  from ml a b c d e f show ?thesis by blast
qed

theorem sanitize_and_format_shape_witness:
  "sanitize_and_format (ustr ''Hello there. Ignore this part'') 28 6 19 = Inr (ustr ''Hello there.'')
   \<and> (\<exists>c \<in> set (logical_text (ustr ''Hello there. Ignore this part'')). is_alpha c)
   \<and> length (wrap_lines (trimmed_text (ustr ''Hello there. Ignore this part'') 28) 19) \<le> nat 6
   \<and> length (split_nl (ustr ''Hello there.'')) \<le> 6
   \<and> ustr ''Hello there.'' \<noteq> []
   \<and> last (ustr ''Hello there.'') = DOT
   \<and> sanitize_and_format (ustr ''12 34'') 28 6 19 = Inr []"
proof -
  have a: "\<exists>c \<in> set (logical_text (ustr ''Hello there. Ignore this part'')). is_alpha c"
    unfolding hello_logical_text by (simp add: ustr_def is_alpha_def)
  have b: "length (wrap_lines (trimmed_text (ustr ''Hello there. Ignore this part'') 28) 19) \<le> nat 6"
    unfolding hello_trimmed hello_wrap by simp
  from sanitize_and_format_shape [OF hello_format] a b
  have "length (split_nl (ustr ''Hello there.'')) \<le> nat 6"
    and "ustr ''Hello there.'' \<noteq> [] \<and> last (ustr ''Hello there.'') = DOT" by simp_all
  moreover from sanitize_and_format_shape [OF digits_format]
  have "sanitize_and_format (ustr ''12 34'') 28 6 19 = Inr []" using digits_format by simp
  ultimately show ?thesis using a b hello_format by simp
qed

text \<open>
  The claim as the specification states it fails. The cut to \<open>max_lines\<close> lines can drop
  the line that carries the full stop: with one line of three columns, \<open>"one two."\<close>
  becomes \<open>"one"\<close>. An input with letters gives the empty output, which does not end
  with a full stop, when its letters come after the first full stop, when the token
  budget is 0 and when it is the control line \<open>END\<close>. A negative \<open>max_lines\<close> raises
  ArgumentError.
\<close>

theorem sanitize_and_format_no_full_stop:
  "sanitize_and_format (ustr ''one two.'') 28 1 3 = Inr (ustr ''one'')
   \<and> is_alpha (hd (ustr ''one two.'')) \<and> ustr ''one'' \<noteq> [] \<and> last (ustr ''one'') \<noteq> DOT
   \<and> sanitize_and_format (ustr ''. a'') 28 6 19 = Inr []
   \<and> is_alpha (last (ustr ''. a''))
   \<and> sanitize_and_format (ustr ''a'') 0 6 19 = Inr []
   \<and> sanitize_and_format (ustr ''END'') 28 6 19 = Inr []
   \<and> sanitize_and_format (ustr ''a'') 28 (- 1) 19 = Inl ArgumentError"
  using one_two_format dot_a_format no_budget_format end_format negative_lines_format
  by (simp add: ustr_def is_alpha_def)

text \<open>
  C4, as amended. When the scanning loop reads a comma or a full stop after at least one
  token has been copied, it removes a space copied just before, appends the mark directly
  after the last element, then a single space, and leaves the token count as it is. When
  nothing has been copied yet the mark is dropped. Hence, for every input, in the elements
  the loop has copied no space stands before a mark, every mark is followed by a space or
  by another mark, and the last element is not a mark.
\<close>

theorem scan_punctuation:
  "scan m (COMMA # t) (out, wc, lws) =
     (if out = [] then scan m t (out, wc, lws)
      else scan m t ((if last out = [SP] then butlast out else out) @ [[COMMA], [SP]], wc, True))
   \<and> scan m (DOT # t) (out, wc, lws) =
     (if out = [] then scan m t (out, wc, lws)
      else scan m t ((if last out = [SP] then butlast out else out) @ [[DOT], [SP]], wc, True))
   \<and> well_spaced (scan m s ([], 0, False))
   \<and> (scan m s ([], 0, False) = [] \<or> \<not> mark (last (scan m s ([], 0, False))))"
  using scan_well_spaced [of m s]
  by (simp add: scan_other token_match_not_alpha is_alpha_def is_space_def)

theorem scan_punctuation_witness:
  "scan 28 (ustr ''a , b.'') ([], 0, False) = [ustr ''a'', [COMMA], [SP], ustr ''b'', [DOT], [SP]]
   \<and> well_spaced [ustr ''a'', [COMMA], [SP], ustr ''b'', [DOT], [SP]]
   \<and> \<not> mark [SP]"
  using scan_punctuation [where m = 28 and s = "ustr ''a , b.''" and t = "[]" and out = "[]"
      and wc = 0 and lws = False]
  by (simp add: scan_token scan_other token_match_def str_eval mark_def)

text \<open>
  The claim as the specification states it fails: no space stands before the mark in the
  output, also when the input had one.
\<close>

theorem comma_has_no_space_before:
  "sanitize_and_format (ustr ''a , b'') 28 6 19 = Inr (ustr ''a, b.'')"
  by (rule comma_format)

text \<open>
  C5. \<open>sanitize_and_format("Hello there. Ignore this part", 28, 6, 19)\<close> returns the
  single line \<open>"Hello there."\<close>: the text after the first full stop is discarded.
\<close>

theorem sanitize_hello_there:
  "sanitize_and_format (ustr ''Hello there. Ignore this part'') 28 6 19
     = Inr (ustr ''Hello there.'')"
  by (rule hello_format)

text \<open>
  C10. Whenever a round of the background loop hands a payload to a transport, the payload
  is the formatted text followed by one line feed, and the formatted text does not end with
  a line feed: the payload ends with exactly one.
\<close>

theorem payload_one_newline:
  assumes "generation_cycle raw panel_cols max_tokens max_lines = Inr payload"
  shows "\<exists>formatted. sanitize_and_format raw max_tokens max_lines (min panel_cols 19) = Inr formatted
           \<and> (formatted = [] \<or> last formatted \<noteq> NL)
           \<and> payload = formatted @ [NL]"
proof -
  from assms obtain formatted
    where f: "sanitize_and_format raw max_tokens max_lines (min panel_cols 19) = Inr formatted"
      and p: "payload = cycle_payload formatted"
    by (auto simp: generation_cycle_def Let_def split: sum.splits)
  define ls where
    "ls = take (nat max_lines) (wrap_lines (trimmed_text raw max_tokens) (min panel_cols 19))"
  from sanitize_lines [OF f] have ml: "0 \<le> max_lines"
    and ok: "\<forall>l \<in> set ls. line_ok (min panel_cols 19) l" by (auto simp: ls_def)
  from sanitize_result [OF ml, of raw max_tokens "min panel_cols 19"] f
  have out: "formatted = join [NL] ls" by (simp add: ls_def)
  have nn: "formatted = [] \<or> last formatted \<noteq> NL"
  proof (cases "ls = []")
    case True
    then show ?thesis by (simp add: out)
  next
    case False
    then have "last ls \<in> set ls" by (rule last_in_set)
    with ok have lo: "line_ok (min panel_cols 19) (last ls)" by blast
    then have ne: "last ls \<noteq> []" and nl: "NL \<notin> set (last ls)" by (auto simp: line_ok_def)
    from join_last [OF False ne, of "[NL]"] have "last formatted = last (last ls)"
      by (simp add: out)
    moreover from ne have "last (last ls) \<in> set (last ls)" by (rule last_in_set)
    ultimately show ?thesis using nl by metis
  qed
  then have "cycle_payload formatted = formatted @ [NL]" by (auto simp: cycle_payload_def)
  with f nn p show ?thesis by blast
qed

theorem payload_one_newline_witness:
  "generation_cycle (ustr ''Hello there. Ignore this part'') 21 28 6
     = Inr (ustr ''Hello there.'' @ [NL])
   \<and> sanitize_and_format (ustr ''Hello there. Ignore this part'') 28 6 (min 21 19)
     = Inr (ustr ''Hello there.'')
   \<and> last (ustr ''Hello there.'') \<noteq> NL"
proof -
  have g: "generation_cycle (ustr ''Hello there. Ignore this part'') 21 28 6
             = Inr (ustr ''Hello there.'' @ [NL])"
    using hello_format by (simp add: generation_cycle_def cycle_payload_def ustr_def)
  from payload_one_newline [OF g] g show ?thesis by (auto simp: ustr_def)
qed

section \<open>Properties of the device\<close>

subsection \<open>Ingestion\<close>

lemma usb_read_append:
  "length (acc @ bs) \<le> 4096 \<Longrightarrow> usb_read acc bs = acc @ bs"
  by (induction bs arbitrary: acc) auto

lemma usb_read_bounded:
  "length acc \<le> 4096 \<Longrightarrow> length (usb_read acc bs) \<le> 4096"
  by (induction bs arbitrary: acc) auto

lemma usb_read_suffix: "\<exists>k. usb_read acc bs = drop k (acc @ bs)"
proof (induction bs arbitrary: acc)
  case Nil
  show ?case by (intro exI [of _ 0]) simp
next
  case (Cons c cs)
  define xs where "xs = acc @ [c]"
  show ?case
  proof (cases "length xs > 4096")
    case True
    define n where "n = length xs - 2048"
    have step: "usb_read acc (c # cs) = usb_read (drop n xs) cs"
      using True by (simp add: xs_def n_def)
    from Cons [of "drop n xs"] obtain k where "usb_read (drop n xs) cs = drop k (drop n xs @ cs)" ..
    moreover have "drop n xs @ cs = drop n (xs @ cs)" by (simp add: n_def)
    ultimately have "usb_read acc (c # cs) = drop (k + n) (xs @ cs)"
      using step by (simp only: drop_drop)
    then have "usb_read acc (c # cs) = drop (k + n) (acc @ c # cs)" by (simp add: xs_def)
    then show ?thesis ..
  next
    case False
    then have "usb_read acc (c # cs) = usb_read xs cs" by (simp add: xs_def)
    moreover from Cons [of xs] obtain k where "usb_read xs cs = drop k (xs @ cs)" ..
    ultimately have "usb_read acc (c # cs) = drop k (acc @ c # cs)" by (simp add: xs_def)
    then show ?thesis ..
  qed
qed

lemma usb_read_cap:
  "length acc \<le> 4096 \<Longrightarrow> length (acc @ bs) > 4096 \<Longrightarrow>
   2048 \<le> length (usb_read acc bs) \<and> length (usb_read acc bs) \<le> 4096"
proof (induction bs arbitrary: acc)
  case Nil
  then show ?case by simp
next
  case (Cons c cs)
  define xs where "xs = acc @ [c]"
  show ?case
  proof (cases "length xs > 4096")
    case True
    define ys where "ys = drop (length xs - 2048) xs"
    have step: "usb_read acc (c # cs) = usb_read ys cs"
      using True by (simp add: xs_def ys_def)
    have l: "length ys = 2048" using True by (simp add: ys_def)
    show ?thesis
    proof (cases "length (ys @ cs) > 4096")
      case t: True
      from l have "length ys \<le> 4096" by simp
      from Cons.IH [OF this t] show ?thesis unfolding step .
    next
      case False
      then have "usb_read ys cs = ys @ cs" by (intro usb_read_append) simp
      with False l show ?thesis unfolding step by simp
    qed
  next
    case False
    then have step: "usb_read acc (c # cs) = usb_read xs cs" by (simp add: xs_def)
    have "length (xs @ cs) > 4096" using Cons.prems(2) by (simp add: xs_def)
    moreover have "length xs \<le> 4096" using False by simp
    ultimately show ?thesis unfolding step by (intro Cons.IH)
  qed
qed

lemma indexOf_Nil: "indexOf ch [] = - 1"
  by (simp add: indexOf_def)

lemma indexOf_found:
  "ch \<noteq> NUL \<Longrightarrow> (indexOf ch s \<noteq> - 1) = (ch \<in> set (takeWhile (\<lambda>c. c \<noteq> NUL) s))"
  by (cases s) (auto simp: indexOf_def Let_def)

lemma processUSB_complete:
  "LF \<in> set (takeWhile (\<lambda>c. c \<noteq> NUL) (usb_read (usbAccum d) avail)) \<Longrightarrow>
   processUSB avail d =
     d\<lparr>gLiveText := usb_read (usbAccum d) avail, gHasLiveText := True,
       kNewLivePending := True, usbAccum := []\<rparr>"
  by (simp add: processUSB_def Let_def indexOf_found)

lemma processUSB_incomplete:
  "LF \<notin> set (takeWhile (\<lambda>c. c \<noteq> NUL) (usb_read (usbAccum d) avail)) \<Longrightarrow>
   processUSB avail d = d\<lparr>usbAccum := usb_read (usbAccum d) avail\<rparr>"
  by (simp add: processUSB_def Let_def indexOf_found)

text \<open>
  C1, as amended. On the radio channel, when the accumulator holds a line feed after the
  written bytes are appended, the whole accumulator up to its first null byte becomes the
  live text: the line feed itself and every byte after the first line feed are part of
  it; the has-live flag and the new-live-text signal are set and the accumulator is
  emptied; an empty write changes nothing. On the serial channel the accumulator after
  the read is a suffix of the old accumulator followed by the bytes read: all of it while
  it stays within 4096 bytes, and from 2048 to 4096 bytes of it once it does not. When it
  holds a line feed before its first null byte, all of it becomes the live text,
  the flag and the signal are set and the accumulator is emptied. Without such a line
  feed the bytes stay in the accumulator and the live text, the flag and the signal are
  unchanged. A POST request with a body makes the body the live text at once and sets the
  flag and the signal; it touches no accumulator.
\<close>

theorem completion_takes_whole_accumulator:
  "(v \<noteq> [] \<and> LF \<in> set (bleAccum d @ v) \<longrightarrow>
      gLiveText (onWrite v d) = takeWhile (\<lambda>c. c \<noteq> NUL) (bleAccum d @ v) \<and>
      bleAccum (onWrite v d) = [] \<and> gHasLiveText (onWrite v d) \<and> kNewLivePending (onWrite v d))
   \<and> (LF \<notin> set (bleAccum d @ v) \<longrightarrow>
      bleAccum (onWrite v d) = bleAccum d @ v \<and> gLiveText (onWrite v d) = gLiveText d \<and>
      gHasLiveText (onWrite v d) = gHasLiveText d \<and>
      kNewLivePending (onWrite v d) = kNewLivePending d)
   \<and> onWrite [] d = d
   \<and> (\<exists>k. usb_read (usbAccum d) avail = drop k (usbAccum d @ avail))
   \<and> (length (usbAccum d @ avail) \<le> 4096 \<longrightarrow> usb_read (usbAccum d) avail = usbAccum d @ avail)
   \<and> (length (usbAccum d) \<le> 4096 \<and> length (usbAccum d @ avail) > 4096 \<longrightarrow>
      2048 \<le> length (usb_read (usbAccum d) avail) \<and> length (usb_read (usbAccum d) avail) \<le> 4096)
   \<and> (LF \<in> set (takeWhile (\<lambda>c. c \<noteq> NUL) (usb_read (usbAccum d) avail)) \<longrightarrow>
      gLiveText (processUSB avail d) = usb_read (usbAccum d) avail \<and>
      usbAccum (processUSB avail d) = [] \<and> gHasLiveText (processUSB avail d) \<and>
      kNewLivePending (processUSB avail d))
   \<and> (LF \<notin> set (takeWhile (\<lambda>c. c \<noteq> NUL) (usb_read (usbAccum d) avail)) \<longrightarrow>
      usbAccum (processUSB avail d) = usb_read (usbAccum d) avail \<and>
      gLiveText (processUSB avail d) = gLiveText d \<and>
      gHasLiveText (processUSB avail d) = gHasLiveText d \<and>
      kNewLivePending (processUSB avail d) = kNewLivePending d)
   \<and> gLiveText (fst (handlePost (Some body) d)) = body
   \<and> gHasLiveText (fst (handlePost (Some body) d))
   \<and> kNewLivePending (fst (handlePost (Some body) d))
   \<and> bleAccum (fst (handlePost (Some body) d)) = bleAccum d
   \<and> usbAccum (fst (handlePost (Some body) d)) = usbAccum d
   \<and> fst (handlePost None d) = d"
proof -
  have ble: "(v \<noteq> [] \<and> LF \<in> set (bleAccum d @ v) \<longrightarrow>
      gLiveText (onWrite v d) = takeWhile (\<lambda>c. c \<noteq> NUL) (bleAccum d @ v) \<and>
      bleAccum (onWrite v d) = [] \<and> gHasLiveText (onWrite v d) \<and> kNewLivePending (onWrite v d))
   \<and> (LF \<notin> set (bleAccum d @ v) \<longrightarrow>
      bleAccum (onWrite v d) = bleAccum d @ v \<and> gLiveText (onWrite v d) = gLiveText d \<and>
      gHasLiveText (onWrite v d) = gHasLiveText d \<and>
      kNewLivePending (onWrite v d) = kNewLivePending d)"
    by (auto simp: onWrite_def Let_def)
  have read: "onWrite [] d = d
   \<and> (\<exists>k. usb_read (usbAccum d) avail = drop k (usbAccum d @ avail))
   \<and> (length (usbAccum d @ avail) \<le> 4096 \<longrightarrow> usb_read (usbAccum d) avail = usbAccum d @ avail)
   \<and> (length (usbAccum d) \<le> 4096 \<and> length (usbAccum d @ avail) > 4096 \<longrightarrow>
      2048 \<le> length (usb_read (usbAccum d) avail) \<and> length (usb_read (usbAccum d) avail) \<le> 4096)"
    using usb_read_suffix [of "usbAccum d" avail] usb_read_append [of "usbAccum d" avail]
      usb_read_cap [of "usbAccum d" avail]
    by (simp add: onWrite_def)
  have usb: "(LF \<in> set (takeWhile (\<lambda>c. c \<noteq> NUL) (usb_read (usbAccum d) avail)) \<longrightarrow>
      gLiveText (processUSB avail d) = usb_read (usbAccum d) avail \<and>
      usbAccum (processUSB avail d) = [] \<and> gHasLiveText (processUSB avail d) \<and>
      kNewLivePending (processUSB avail d))
   \<and> (LF \<notin> set (takeWhile (\<lambda>c. c \<noteq> NUL) (usb_read (usbAccum d) avail)) \<longrightarrow>
      usbAccum (processUSB avail d) = usb_read (usbAccum d) avail \<and>
      gLiveText (processUSB avail d) = gLiveText d \<and>
      gHasLiveText (processUSB avail d) = gHasLiveText d \<and>
      kNewLivePending (processUSB avail d) = kNewLivePending d)"
    by (simp add: processUSB_complete processUSB_incomplete)
  have post: "gLiveText (fst (handlePost (Some body) d)) = body
   \<and> gHasLiveText (fst (handlePost (Some body) d))
   \<and> kNewLivePending (fst (handlePost (Some body) d))
   \<and> bleAccum (fst (handlePost (Some body) d)) = bleAccum d
   \<and> usbAccum (fst (handlePost (Some body) d)) = usbAccum d
   \<and> fst (handlePost None d) = d"
    by (simp add: handlePost_def)
  from ble read usb post show ?thesis by blast
qed

theorem completion_takes_whole_accumulator_witness:
  "gLiveText (onWrite (''abc'' @ [LF]) device0) = ''abc'' @ [LF]
   \<and> bleAccum (onWrite (''abc'' @ [LF]) device0) = []
   \<and> bleAccum (onWrite ''abc'' device0) = ''abc''
   \<and> gLiveText (processUSB (''def'' @ [LF]) device0) = ''def'' @ [LF]
   \<and> usbAccum (processUSB (''def'' @ [LF]) device0) = []
   \<and> usbAccum (processUSB ''def'' device0) = ''def''
   \<and> usbAccum (processUSB (''ab'' @ [NUL] @ ''cd'' @ [LF]) device0) = ''ab'' @ [NUL] @ ''cd'' @ [LF]
   \<and> \<not> kNewLivePending (processUSB (''ab'' @ [NUL] @ ''cd'' @ [LF]) device0)
   \<and> gLiveText (fst (handlePost (Some ''abc'') device0)) = ''abc''"
  using completion_takes_whole_accumulator [of "''abc'' @ [LF]" device0 "''def'' @ [LF]" "''abc''"]
    completion_takes_whole_accumulator [of "''abc''" device0 "''def''" "''abc''"]
    completion_takes_whole_accumulator [of "''abc''" device0 "''ab'' @ [NUL] @ ''cd'' @ [LF]" "''abc''"]
  by (simp add: device0_def)

text \<open>
  The claim as the specification states it fails: when \<open>"abc\n"\<close> and \<open>"def\n"\<close>
  have both arrived before the accumulator is looked at, the live text is the two lines
  together and nothing stays buffered.
\<close>

theorem two_messages_in_one_poll:
  "gLiveText (processUSB (''abc'' @ [LF] @ ''def'' @ [LF]) device0) = ''abc'' @ [LF] @ ''def'' @ [LF]
   \<and> usbAccum (processUSB (''abc'' @ [LF] @ ''def'' @ [LF]) device0) = []
   \<and> gLiveText (onWrite (''abc'' @ [LF] @ ''def'' @ [LF]) device0) = ''abc'' @ [LF] @ ''def'' @ [LF]
   \<and> bleAccum (onWrite (''abc'' @ [LF] @ ''def'' @ [LF]) device0) = []"
  by (simp add: processUSB_def indexOf_def onWrite_def device0_def)

lemma concat_replicate_commute: "concat (replicate n v) @ v = v @ concat (replicate n v)"
  by (induction n) auto

lemma onWrite_no_newline:
  "LF \<notin> set (bleAccum d) \<Longrightarrow> LF \<notin> set v \<Longrightarrow>
   (onWrite v ^^ n) d = d\<lparr>bleAccum := bleAccum d @ concat (replicate n v)\<rparr>"
proof (induction n)
  case 0
  then show ?case by simp
next
  case (Suc n)
  then show ?case
    by (cases "v = []") (auto simp: onWrite_def Let_def concat_replicate_commute)
qed

text \<open>
  C6. The serial accumulator is capped (\<open>usb_read_bounded\<close>); the radio accumulator
  \<open>bleAccum\<close> is not: fifty writes of a hundred bytes without a line feed leave 5000
  bytes in it, and no message is completed.
\<close>

theorem ble_accumulator_grows:
  "length (bleAccum ((onWrite (replicate 100 CHR ''x'') ^^ 50) device0)) = 5000
   \<and> \<not> kNewLivePending ((onWrite (replicate 100 CHR ''x'') ^^ 50) device0)"
proof -
  have "(onWrite (replicate 100 CHR ''x'') ^^ 50) device0
          = device0\<lparr>bleAccum := bleAccum device0 @ concat (replicate 50 (replicate 100 CHR ''x''))\<rparr>"
    by (rule onWrite_no_newline) (simp_all add: device0_def)
  then show ?thesis by (simp add: device0_def length_concat sum_list_replicate)
qed

subsection \<open>The dissolve animation\<close>

lemma random_below_less: "0 < n \<Longrightarrow> random_below n raw < n"
  by (simp add: random_below_def)

lemma shuffle_mset:
  "i < length idx \<Longrightarrow> mset (fst (shuffle rnd k i idx)) = mset idx"
proof (induction i arbitrary: k idx)
  case 0
  show ?case by simp
next
  case (Suc i)
  let ?j = "random_below (Suc i + 1) (rnd k)"
  have j: "?j < length idx"
    using random_below_less [of "Suc i + 1" "rnd k"] Suc.prems by simp
  let ?idx = "idx[Suc i := idx ! ?j, ?j := idx ! Suc i]"
  have "mset ?idx = mset idx"
    using Suc.prems j by (simp add: mset_swap)
  moreover have "i < length ?idx" using Suc.prems by simp
  ultimately show ?case using Suc.IH [of ?idx "Suc k"] by (simp add: Let_def)
qed

lemma shuffle_count: "snd (shuffle rnd k i idx) = k + i"
  by (induction i arbitrary: k idx) (simp_all add: Let_def)

lemma us_per_blk_eq:
  "0 < N \<Longrightarrow> us_per_blk duration_ms N = max 1 (unat (duration_ms * 1000) div N)"
  by (simp add: us_per_blk_def Let_def max_def)

lemma unat_times_1000:
  fixes d :: "32 word"
  assumes "unat d * 1000 < 2 ^ 32"
  shows "unat (d * 1000) = unat d * 1000"
proof -
  have "unat (d * 1000) = (unat d * unat (1000 :: 32 word)) mod 2 ^ 32"
    by (simp add: unat_word_ariths)
  with assms show ?thesis by simp
qed

lemma dissolve_shuffled:
  assumes "block \<noteq> 0"
    and "0 < block_count w h block"
    and "block_count w h block \<le> 65536"
    and "unat duration_ms * 1000 < 2 ^ 32"
  shows "(\<exists>idx. dissolveClearBlocks True rnd k w h duration_ms block =
            Inr (idx,
                 concat (map (\<lambda>p. [clear_block w h block p,
                                     DelayMicroseconds
                                       (max 1 (unat duration_ms * 1000 div block_count w h block))])
                           idx),
                 k + (block_count w h block - 1))
          \<and> mset idx = mset [0..<block_count w h block])
         \<and> dissolveClearBlocks False rnd k w h duration_ms block = Inr ([], [], k)"
proof -
  define N where "N = block_count w h block"
  define idx0 where "idx0 = map (\<lambda>i. i mod 65536) [0..<N]"
  have idx0: "idx0 = [0..<N]"
    unfolding idx0_def using assms(3) by (intro map_idI) (simp add: N_def)
  obtain idx k' where sh: "shuffle rnd k (N - 1) idx0 = (idx, k')"
    by (cases "shuffle rnd k (N - 1) idx0")
  have "mset (fst (shuffle rnd k (N - 1) idx0)) = mset idx0"
    using assms(2) by (intro shuffle_mset) (simp add: idx0 N_def)
  with sh idx0 have m: "mset idx = mset [0..<N]" by simp
  from shuffle_count [of rnd k "N - 1" idx0] sh have k': "k' = k + (N - 1)" by simp
  have bound: "\<not> (N = 0 \<or> 2 * N \<ge> (2 :: nat) ^ 32)"
    using assms(2,3) by (simp add: N_def)
  have "dissolveClearBlocks True rnd k w h duration_ms block =
          Inr (idx,
               concat (map (\<lambda>p. [clear_block w h block p,
                                   DelayMicroseconds (us_per_blk duration_ms N)]) idx),
               k')"
    using assms(1) bound sh
    by (simp add: dissolveClearBlocks_def Let_def N_def [symmetric] idx0_def [symmetric])
  moreover have "us_per_blk duration_ms N = max 1 (unat duration_ms * 1000 div N)"
    using assms(2) us_per_blk_eq [of N duration_ms] unat_times_1000 [OF assms(4)]
    by (simp add: N_def)
  moreover have "dissolveClearBlocks False rnd k w h duration_ms block = Inr ([], [], k)"
    using assms(1) by (simp add: dissolveClearBlocks_def Let_def)
  ultimately show ?thesis
    using m k' by (auto simp: N_def)
qed



lemma block_count_panel: "block_count panel_width panel_height 4 = 512"
  by (simp add: block_count_def blocks_along_def panel_width_def panel_height_def)







lemma filter_absent: "a \<notin> set xs \<Longrightarrow> length (filter (\<lambda>p. p = a) xs) = 0"
  by (auto simp: filter_empty_conv)





















subsection \<open>The sequencer\<close>

lemma ingest_fields:
  "state (ingest inp d) = state d" "tMark (ingest inp d) = tMark d"
  "twIdx (ingest inp d) = twIdx d" "twLast (ingest inp d) = twLast d"
  "n_millis (ingest inp d) = n_millis d" "n_random (ingest inp d) = n_random d"
  "display (ingest inp d) = display d" "currentPhilo (ingest inp d) = currentPhilo d"
  by (auto simp: ingest_def processUSB_def handlePost_def Let_def split: option.splits)

lemma ingest_keeps_pending: "kNewLivePending d \<Longrightarrow> kNewLivePending (ingest inp d)"
  by (auto simp: ingest_def processUSB_def handlePost_def Let_def split: option.splits)

lemma dissolve_panel:
  "\<exists>idx effects. dissolveClearBlocks m rnd k panel_width panel_height 1500 4
      = Inr (idx, effects, if m then k + 511 else k)"
proof (cases m)
  case True
  have a: "(4 :: 8 word) \<noteq> 0" by simp
  have b: "0 < block_count panel_width panel_height 4"
    and c: "block_count panel_width panel_height 4 \<le> 65536"
    by (simp_all add: block_count_panel)
  have d: "unat (1500 :: 32 word) * 1000 < 2 ^ 32" by simp
  from dissolve_shuffled [OF a b c d, of rnd k] True show ?thesis
    by (auto simp: block_count_panel)
next
  case False
  then show ?thesis by (simp add: dissolveClearBlocks_def Let_def)
qed

lemma check_pending_set:
  "kNewLivePending d \<Longrightarrow>
   check_pending w d = d\<lparr>n_millis := Suc (n_millis d), kNewLivePending := False,
                          tMark := millis_at w (n_millis d), state := STATE_DISSOLVING\<rparr>"
  by (simp add: check_pending_def millis_def)

lemma check_pending_idle: "\<not> kNewLivePending d \<Longrightarrow> check_pending w d = d"
  by (simp add: check_pending_def)

lemma loop_pending:
  assumes "kNewLivePending d"
  shows "\<exists>idx effects.
           dissolveClearBlocks (malloc_succeeds inp) (random_at w) (n_random d)
             panel_width panel_height 1500 4
             = Inr (idx, effects, if malloc_succeeds inp then n_random d + 511 else n_random d)
           \<and> loop cfg w inp d =
               Some (Inr ((ingest inp d)
                 \<lparr>n_millis := Suc (Suc (n_millis d)), kNewLivePending := False,
                  tMark := millis_at w (Suc (n_millis d)), state := STATE_POST_DISSOLVE_PAUSE,
                  n_random := (if malloc_succeeds inp then n_random d + 511 else n_random d),
                  display := display d @ effects\<rparr>))"
proof -
  obtain idx effects where D:
    "dissolveClearBlocks (malloc_succeeds inp) (random_at w) (n_random d)
       panel_width panel_height 1500 4
       = Inr (idx, effects, if malloc_succeeds inp then n_random d + 511 else n_random d)"
    using dissolve_panel by blast
  have p: "kNewLivePending (ingest inp d)" using assms by (rule ingest_keeps_pending)
  have "loop cfg w inp d =
               Some (Inr ((ingest inp d)
                 \<lparr>n_millis := Suc (Suc (n_millis d)), kNewLivePending := False,
                  tMark := millis_at w (Suc (n_millis d)), state := STATE_POST_DISSOLVE_PAUSE,
                  n_random := (if malloc_succeeds inp then n_random d + 511 else n_random d),
                  display := display d @ effects\<rparr>))"
    using D by (simp add: loop_def run_state_def check_pending_set [OF p] state_dissolving_def
        ingest_fields millis_def emit_def)
  with D show ?thesis by blast
qed

lemma typewriter_entry:
  assumes "loop cfg w inp e = Some (Inr e')" "state e' = STATE_TYPEWRITER"
    and "state e \<noteq> STATE_TYPEWRITER \<or> kNewLivePending e"
  shows "twIdx e' = 0"
proof (cases "kNewLivePending e")
  case True
  from loop_pending [OF True, of inp w cfg] assms(1,2) show ?thesis by auto
next
  case False
  with assms(3) have ns: "state e \<noteq> STATE_TYPEWRITER" by simp
  show ?thesis
  proof (cases "kNewLivePending (ingest inp e)")
    case True
    then have c: "state (check_pending w (ingest inp e)) = STATE_DISSOLVING"
      by (simp add: check_pending_set)
    from assms(1,2) show ?thesis
      unfolding loop_def run_state_def c
      by (auto simp: state_dissolving_def millis_def split: sum.splits prod.splits)
  next
    case F: False
    have c: "check_pending w (ingest inp e) = ingest inp e"
      using F by (rule check_pending_idle)
    from assms(1,2) ns show ?thesis
      unfolding loop_def run_state_def c
      by (cases "state e")
         (auto simp: ingest_fields state_wait_def state_dissolving_def state_pause_def
            state_thining_def state_done_def millis_def emit_def randomizePalette_def Let_def
            split: sum.splits prod.splits if_splits option.splits)
  qed
qed

lemma thinking_step:
  "\<exists>e'. loop source_config world0 input0 thinking_device = Some (Inr e')
        \<and> state e' = STATE_TYPEWRITER"
  by (simp add: loop_def run_state_def check_pending_def ingest_def processUSB_def indexOf_Nil
      thinking_device_def device0_def input0_def world0_def state_thining_def millis_def
      emit_def randomizePalette_def Let_def)

text \<open>
  C7. When the new-live-text signal is pending at the start of a call of \<open>loop()\<close>,
  the check at the top of the call clears the signal, restarts the phase clock and sets
  the state to Dissolving, whatever the state was. The call then runs the dissolve at once
  and returns in the state PostDissolvePause, with nothing but the dissolve drawn. The
  reveal index is not resumed: a call that enters the Typewriter state from another state
  leaves it at 0.
\<close>

theorem new_live_text_preempts:
  assumes "kNewLivePending d"
  shows "state (check_pending w (ingest inp d)) = STATE_DISSOLVING
         \<and> \<not> kNewLivePending (check_pending w (ingest inp d))
         \<and> tMark (check_pending w (ingest inp d)) = millis_at w (n_millis d)
         \<and> (\<exists>d' idx effects.
               loop cfg w inp d = Some (Inr d')
               \<and> dissolveClearBlocks (malloc_succeeds inp) (random_at w) (n_random d)
                    panel_width panel_height 1500 4 = Inr (idx, effects, n_random d')
               \<and> display d' = display d @ effects
               \<and> \<not> kNewLivePending d'
               \<and> state d' = STATE_POST_DISSOLVE_PAUSE)
         \<and> (loop cfg w inp2 e = Some (Inr e') \<and> state e \<noteq> STATE_TYPEWRITER
              \<and> state e' = STATE_TYPEWRITER \<longrightarrow> twIdx e' = 0)"
proof -
  have p: "kNewLivePending (ingest inp d)" using assms by (rule ingest_keeps_pending)
  have a: "state (check_pending w (ingest inp d)) = STATE_DISSOLVING
         \<and> \<not> kNewLivePending (check_pending w (ingest inp d))
         \<and> tMark (check_pending w (ingest inp d)) = millis_at w (n_millis d)"
    by (simp add: check_pending_set [OF p] ingest_fields)
  from loop_pending [OF assms, of inp w cfg] obtain idx effects where
    D: "dissolveClearBlocks (malloc_succeeds inp) (random_at w) (n_random d)
             panel_width panel_height 1500 4
             = Inr (idx, effects, if malloc_succeeds inp then n_random d + 511 else n_random d)"
    and L: "loop cfg w inp d =
               Some (Inr ((ingest inp d)
                 \<lparr>n_millis := Suc (Suc (n_millis d)), kNewLivePending := False,
                  tMark := millis_at w (Suc (n_millis d)), state := STATE_POST_DISSOLVE_PAUSE,
                  n_random := (if malloc_succeeds inp then n_random d + 511 else n_random d),
                  display := display d @ effects\<rparr>))"
    by blast
  have b: "\<exists>d' idx effects.
               loop cfg w inp d = Some (Inr d')
               \<and> dissolveClearBlocks (malloc_succeeds inp) (random_at w) (n_random d)
                    panel_width panel_height 1500 4 = Inr (idx, effects, n_random d')
               \<and> display d' = display d @ effects
               \<and> \<not> kNewLivePending d'
               \<and> state d' = STATE_POST_DISSOLVE_PAUSE"
    using D L by (intro exI [of _ "(ingest inp d)
                 \<lparr>n_millis := Suc (Suc (n_millis d)), kNewLivePending := False,
                  tMark := millis_at w (Suc (n_millis d)), state := STATE_POST_DISSOLVE_PAUSE,
                  n_random := (if malloc_succeeds inp then n_random d + 511 else n_random d),
                  display := display d @ effects\<rparr>"] exI [of _ idx] exI [of _ effects]) simp
  have c: "loop cfg w inp2 e = Some (Inr e') \<and> state e \<noteq> STATE_TYPEWRITER
              \<and> state e' = STATE_TYPEWRITER \<longrightarrow> twIdx e' = 0"
    using typewriter_entry [of cfg w inp2 e e'] by blast
  from a b c show ?thesis by blast
qed

theorem new_live_text_preempts_witness:
  "kNewLivePending typing_device
   \<and> state typing_device = STATE_TYPEWRITER
   \<and> state (check_pending world0 (ingest input0 typing_device)) = STATE_DISSOLVING
   \<and> (\<exists>d'. loop source_config world0 input0 typing_device = Some (Inr d')
         \<and> state d' = STATE_POST_DISSOLVE_PAUSE \<and> \<not> kNewLivePending d')
   \<and> (\<exists>e'. loop source_config world0 input0 thinking_device = Some (Inr e')
         \<and> state e' = STATE_TYPEWRITER \<and> twIdx e' = 0)"
proof -
  have p: "kNewLivePending typing_device" by (simp add: typing_device_def)
  obtain e' where e: "loop source_config world0 input0 thinking_device = Some (Inr e')"
    "state e' = STATE_TYPEWRITER" using thinking_step by blast
  have n: "state thinking_device \<noteq> STATE_TYPEWRITER" by (simp add: thinking_device_def)
  from new_live_text_preempts [OF p, of world0 input0 source_config input0 thinking_device e']
    e n p
  show ?thesis by (auto simp: typing_device_def device0_def)
qed




















section \<open>Properties of the radio bridge\<close>






































end
